theory Spec2Isabelle
  imports Complex_Main "HOL-Library.Product_Lexorder" "HOL-Library.Multiset"
begin

section \<open>Calendar dates\<close>

text \<open>
  The store keeps every date as ISO text \<^verbatim>\<open>YYYY-MM-DD\<close>; the engine parses it with
  \<^verbatim>\<open>strptime\<close> into a \<^verbatim>\<open>datetime.date\<close>. A date is modelled as the triple
  (year, month, day). SQLite compares the text and Python compares the date objects;
  on well-formed dates both are the lexicographic order of the triple, which
  the lexicographic product order of HOL-Library provides.
\<close>

type_synonym date = "nat \<times> nat \<times> nat"

definition is_leap :: "nat \<Rightarrow> bool" where
  "is_leap y = (y mod 4 = 0 \<and> (y mod 100 \<noteq> 0 \<or> y mod 400 = 0))"

definition days_in_month :: "nat \<Rightarrow> nat \<Rightarrow> nat" where
  "days_in_month y m =
     (if m = 2 then (if is_leap y then 29 else 28)
      else if m = 4 \<or> m = 6 \<or> m = 9 \<or> m = 11 then 30 else 31)"

text \<open>The dates \<^verbatim>\<open>datetime.date\<close> can hold: years 1 to 9999 (MINYEAR, MAXYEAR).\<close>

fun valid_date :: "date \<Rightarrow> bool" where
  "valid_date (y, m, d) =
     (1 \<le> y \<and> y \<le> 9999 \<and> 1 \<le> m \<and> m \<le> 12 \<and> 1 \<le> d \<and> d \<le> days_in_month y m)"

fun next_day :: "date \<Rightarrow> date" where
  "next_day (y, m, d) =
     (if d < days_in_month y m then (y, m, d + 1)
      else if m < 12 then (y, m + 1, 1)
      else (y + 1, 1, 1))"

datatype error =
    DateOverflow      \<comment> \<open>OverflowError / ValueError: date arithmetic beyond year 9999\<close>
  | IntegrityError    \<comment> \<open>sqlite3.IntegrityError: FOREIGN KEY constraint failed\<close>

text \<open>\<^verbatim>\<open>date + timedelta(days=n)\<close>: the n-th following day, or an error past 9999-12-31.\<close>

fun add_days :: "nat \<Rightarrow> date \<Rightarrow> error + date" where
  "add_days n dt =
     (if n = 0 then Inr dt
      else if valid_date (next_day dt) then add_days (n - 1) (next_day dt)
      else Inl DateOverflow)"

declare add_days.simps [simp del]

text \<open>
  \<^verbatim>\<open>date + relativedelta(months=k)\<close> for k = 1, 2, as dateutil computes it: the month is
  advanced, a month past 12 carries into the year, the day is clamped to the length of the
  target month, and \<^verbatim>\<open>date.replace\<close> raises when the year passes 9999.
\<close>

fun add_months :: "nat \<Rightarrow> date \<Rightarrow> error + date" where
  "add_months k (y, m, d) =
     (let month = m + k;
          year = (if month > 12 then y + 1 else y);
          month = (if month > 12 then month - 12 else month);
          day = min (days_in_month year month) d
      in if year > 9999 then Inl DateOverflow else Inr (year, month, day))"

text \<open>
  \<^verbatim>\<open>pd.date_range(start, end, freq='D')\<close>: every calendar day from start to end inclusive,
  empty when end is before start. The two bounds are parsed dates, hence valid ones.
\<close>

function date_range :: "date \<Rightarrow> date \<Rightarrow> date list" where
  "date_range s e =
     (if valid_date s \<and> valid_date e \<and> s \<le> e then s # date_range (next_day s) e else [])"
  by pat_completeness auto
termination
proof (relation "measure (\<lambda>(s, e). (372 * fst e + 31 * fst (snd e) + snd (snd e) + 1)
                                    - (372 * fst s + 31 * fst (snd s) + snd (snd s)))")
  show "wf (measure (\<lambda>(s, e). (372 * fst e + 31 * fst (snd e) + snd (snd e) + 1)
                                    - (372 * fst s + 31 * fst (snd s) + snd (snd s))))"
    by simp
next
  fix s e :: date
  assume a: "valid_date s \<and> valid_date e \<and> s \<le> e"
  obtain y m d where s: "s = (y, m, d)" by (cases s) auto
  obtain y' m' d' where e: "e = (y', m', d')" by (cases e) auto
  have dim: "days_in_month y m \<le> 31" by (simp add: days_in_month_def)
  have le: "372 * y + 31 * m + d \<le> 372 * y' + 31 * m' + d'"
    using a dim unfolding s e by (auto simp: days_in_month_def split: if_splits)
  have step: "372 * y + 31 * m + d < 372 * fst (next_day s) + 31 * fst (snd (next_day s))
                + snd (snd (next_day s))"
    using a dim unfolding s by auto
  show "((next_day s, e), (s, e)) \<in> measure (\<lambda>(s, e).
          (372 * fst e + 31 * fst (snd e) + snd (snd e) + 1)
          - (372 * fst s + 31 * fst (snd s) + snd (snd s)))"
    using le step unfolding s e by simp
qed

declare date_range.simps [simp del]


section \<open>The store (database.py)\<close>

text \<open>
  One record per table row, with the columns in the order of the \<^verbatim>\<open>CREATE TABLE\<close>
  statements; a table is the list of its rows in insertion (rowid) order. Nullable columns
  are options. Amounts and balances are SQLite \<^verbatim>\<open>REAL\<close>, read by Python as float64: a
  stored value is carried as the real number it denotes. The store never adds two of them;
  the additions of the aggregator go through the arithmetic given below.
\<close>

record settings_row =
  st_user :: string
  st_start_balance :: real
  st_start_date :: date

record category_row =
  category_id :: nat
  c_user :: string
  c_name :: string
  c_type :: string

record schedule_row =
  schedule_id :: nat
  s_user :: string
  s_category :: "nat option"
  s_description :: string
  s_amount :: real
  frequency :: string
  s_start_date :: date
  s_end_date :: "date option"

record transaction_row =
  transaction_id :: nat
  t_user :: string
  t_schedule :: "nat option"
  t_category :: "nat option"
  t_date :: date
  t_description :: string
  t_amount :: real
  is_confirmed :: int

text \<open>
  The connection's view of the database: the five tables and the \<^verbatim>\<open>AUTOINCREMENT\<close>
  counter of the transactions table (the largest transaction id handed out so far).
\<close>

record store =
  users :: "string list"
  user_settings :: "settings_row list"
  categories :: "category_row list"
  scheduled_transactions :: "schedule_row list"
  transactions :: "transaction_row list"
  seq_transactions :: nat

text \<open>What a call that writes leaves behind: it returned, or it raised with the store as
  the connection sees it at that moment.\<close>

datatype outcome = Returned store | Raised error store

fun final_store :: "outcome \<Rightarrow> store" where
  "final_store (Returned s) = s"
| "final_store (Raised e s) = s"

text \<open>\<^verbatim>\<open>LEFT JOIN categories c ON t.category_id = c.category_id\<close>, columns
  \<^verbatim>\<open>c.name, c.type\<close>: the category with that id, whoever owns it, or NULLs.\<close>

definition join_category :: "store \<Rightarrow> nat option \<Rightarrow> (string \<times> string) option" where
  "join_category s cid =
     (case cid of None \<Rightarrow> None
      | Some c \<Rightarrow> map_option (\<lambda>r. (c_name r, c_type r))
                    (find (\<lambda>r. category_id r = c) (categories s)))"

definition get_user_settings :: "store \<Rightarrow> string \<Rightarrow> settings_row option" where
  "get_user_settings s u = find (\<lambda>r. st_user r = u) (user_settings s)"

definition get_all_transactions_after ::
  "store \<Rightarrow> string \<Rightarrow> date \<Rightarrow> (transaction_row \<times> (string \<times> string) option) list" where
  "get_all_transactions_after s u dt =
     map (\<lambda>t. (t, join_category s (t_category t)))
       (sort_key (\<lambda>t. (t_date t, transaction_id t))
          (filter (\<lambda>t. t_user t = u \<and> t_date t \<ge> dt) (transactions s)))"

text \<open>The same join for the rows of one day; the statement has no \<^verbatim>\<open>ORDER BY\<close>, the
  rows come in table order.\<close>

definition get_transactions_for_day ::
  "store \<Rightarrow> string \<Rightarrow> date \<Rightarrow> (transaction_row \<times> (string \<times> string) option) list" where
  "get_transactions_for_day s u dt =
     map (\<lambda>t. (t, join_category s (t_category t)))
       (filter (\<lambda>t. t_user t = u \<and> t_date t = dt) (transactions s))"

definition get_scheduled_transactions ::
  "store \<Rightarrow> string \<Rightarrow> (schedule_row \<times> (string \<times> string) option) list" where
  "get_scheduled_transactions s u =
     map (\<lambda>r. (r, join_category s (s_category r)))
       (filter (\<lambda>r. s_user r = u) (scheduled_transactions s))"

text \<open>\<^verbatim>\<open>SELECT MAX(date)\<close>: NULL when no row matches.\<close>

fun max_date :: "date list \<Rightarrow> date option" where
  "max_date [] = None"
| "max_date (d # ds) = (case max_date ds of None \<Rightarrow> Some d | Some m \<Rightarrow> Some (max d m))"

definition get_last_generated_date :: "store \<Rightarrow> string \<Rightarrow> nat \<Rightarrow> date option" where
  "get_last_generated_date s u sid =
     max_date (map t_date
       (filter (\<lambda>t. t_user t = u \<and> t_schedule t = Some sid) (transactions s)))"

text \<open>
  The connection runs with \<^verbatim>\<open>PRAGMA foreign_keys = ON\<close>: an insert whose user, schedule
  or category does not exist, and a delete of a row that is still referenced, raise
  \<^verbatim>\<open>IntegrityError\<close>; the failing statement changes nothing, and what the call
  wrote before it stays in the connection's open transaction.
\<close>

definition fk_parent_ok :: "nat list \<Rightarrow> nat option \<Rightarrow> bool" where
  "fk_parent_ok ids r = (case r of None \<Rightarrow> True | Some i \<Rightarrow> i \<in> set ids)"

definition add_transaction ::
  "store \<Rightarrow> string \<Rightarrow> date \<Rightarrow> nat option \<Rightarrow> string \<Rightarrow> real \<Rightarrow> int \<Rightarrow> nat option
     \<Rightarrow> error + nat \<times> store" where
  "add_transaction s u dt cid descr amount conf sid =
     (if u \<in> set (users s)
         \<and> fk_parent_ok (map schedule_id (scheduled_transactions s)) sid
         \<and> fk_parent_ok (map category_id (categories s)) cid
      then let i = Suc (seq_transactions s);
               row = \<lparr>transaction_id = i, t_user = u, t_schedule = sid, t_category = cid,
                      t_date = dt, t_description = descr, t_amount = amount,
                      is_confirmed = conf\<rparr>
           in Inr (i, s\<lparr>transactions := transactions s @ [row], seq_transactions := i\<rparr>)
      else Inl IntegrityError)"

definition delete_category :: "store \<Rightarrow> nat \<Rightarrow> string \<Rightarrow> outcome" where
  "delete_category s cid u =
     (let s1 = s\<lparr>transactions :=
                   map (\<lambda>t. if t_category t = Some cid \<and> t_user t = u
                             then t\<lparr>t_category := None\<rparr> else t) (transactions s)\<rparr>;
          s2 = s1\<lparr>scheduled_transactions :=
                   map (\<lambda>r. if s_category r = Some cid \<and> s_user r = u
                             then r\<lparr>s_category := None\<rparr> else r) (scheduled_transactions s1)\<rparr>
      in if (\<exists>c \<in> set (categories s2). category_id c = cid \<and> c_user c = u)
            \<and> ((\<exists>t \<in> set (transactions s2). t_category t = Some cid)
               \<or> (\<exists>r \<in> set (scheduled_transactions s2). s_category r = Some cid))
         then Raised IntegrityError s2
         else Returned (s2\<lparr>categories :=
                 filter (\<lambda>c. \<not> (category_id c = cid \<and> c_user c = u)) (categories s2)\<rparr>))"

definition delete_scheduled_transaction :: "store \<Rightarrow> nat \<Rightarrow> string \<Rightarrow> bool \<Rightarrow> outcome" where
  "delete_scheduled_transaction s sid u delete_future =
     (if (\<exists>r \<in> set (scheduled_transactions s). schedule_id r = sid \<and> s_user r = u)
         \<and> (\<exists>t \<in> set (transactions s). t_schedule t = Some sid)
      then Raised IntegrityError s
      else let s1 = s\<lparr>scheduled_transactions :=
                     filter (\<lambda>r. \<not> (schedule_id r = sid \<and> s_user r = u))
                       (scheduled_transactions s)\<rparr>
           in if delete_future
              then Returned (s1\<lparr>transactions :=
                     filter (\<lambda>t. \<not> (t_schedule t = Some sid \<and> t_user t = u \<and> is_confirmed t = 0))
                       (transactions s1)\<rparr>)
              else Returned s1)"

section \<open>The balance aggregator (engine.get_calendar_data)\<close>

text \<open>
  A row of the returned DataFrame. The flat frame built when the user has no transaction
  has no \<^verbatim>\<open>net_change\<close> column, hence the option.
\<close>

record calendar_row =
  cal_date :: date
  credits :: real
  debits :: real
  is_actual :: bool
  net_change :: "real option"
  balance :: real

text \<open>
  The aggregator adds float64 values in four places: the grouped column sums
  \<^verbatim>\<open>('credits', 'sum')\<close> and \<^verbatim>\<open>('debits', 'sum')\<close>, the column addition
  \<^verbatim>\<open>credits + debits\<close>, the running sum \<^verbatim>\<open>net_change.cumsum()\<close>, and the addition of
  \<^verbatim>\<open>start_balance\<close> to it. These are rounded operations of pandas and numpy, not the
  addition of real numbers. The model takes them as a parameter: \<^verbatim>\<open>f_add\<close> is the float64
  addition of two values and \<^verbatim>\<open>f_sum\<close> the sum pandas computes for the values of one
  group, in row order. Nothing is assumed of them except where a statement says so.
\<close>

record arith =
  f_add :: "real \<Rightarrow> real \<Rightarrow> real"
  f_sum :: "real list \<Rightarrow> real"

text \<open>Step 3: the credit and the debit part of an amount.\<close>

definition credit_of :: "transaction_row \<Rightarrow> real" where
  "credit_of t = (if t_amount t > 0 then t_amount t else 0)"

definition debit_of :: "transaction_row \<Rightarrow> real" where
  "debit_of t = (if t_amount t \<le> 0 then t_amount t else 0)"

text \<open>
  Step 4: \<^verbatim>\<open>groupby(pd.Grouper(key='date', freq='D'))\<close> makes one bin per calendar day
  from the earliest to the latest transaction date, and sums the two columns of each bin;
  the \<^verbatim>\<open>(x == 1).all()\<close> of an empty bin is True. The next statement adds the two
  sums of each bin into \<^verbatim>\<open>net_change\<close>.
\<close>

record summary_row =
  sm_date :: date
  sm_credits :: real
  sm_debits :: real
  sm_is_actual :: bool
  sm_net_change :: real

definition summarize_day :: "arith \<Rightarrow> transaction_row list \<Rightarrow> date \<Rightarrow> summary_row" where
  "summarize_day ar df d =
     (let grp = filter (\<lambda>t. t_date t = d) df;
          cr = f_sum ar (map credit_of grp);
          db = f_sum ar (map debit_of grp)
      in \<lparr>sm_date = d, sm_credits = cr, sm_debits = db,
          sm_is_actual = list_all (\<lambda>t. is_confirmed t = 1) grp,
          sm_net_change = f_add ar cr db\<rparr>)"

definition daily_summary :: "arith \<Rightarrow> transaction_row list \<Rightarrow> summary_row list" where
  "daily_summary ar df =
     (case df of [] \<Rightarrow> []
      | t # ts \<Rightarrow> map (summarize_day ar df)
                   (date_range (fold min (map t_date ts) (t_date t))
                               (fold max (map t_date ts) (t_date t))))"

text \<open>Step 6: the left merge on the date, then \<^verbatim>\<open>fillna(0)\<close> for the days without a bin;
  the 0 in \<^verbatim>\<open>is_actual\<close> becomes False at the final \<^verbatim>\<open>astype(bool)\<close>. The balance
  column does not exist yet; the field is filled in by the next step.\<close>

definition merge_day :: "summary_row list \<Rightarrow> date \<Rightarrow> calendar_row" where
  "merge_day summary d =
     (case find (\<lambda>r. sm_date r = d) summary of
        None \<Rightarrow> \<lparr>cal_date = d, credits = 0, debits = 0, is_actual = False,
                  net_change = Some 0, balance = 0\<rparr>
      | Some r \<Rightarrow> \<lparr>cal_date = d, credits = sm_credits r, debits = sm_debits r,
                    is_actual = sm_is_actual r, net_change = Some (sm_net_change r),
                    balance = 0\<rparr>)"

text \<open>Step 7: \<^verbatim>\<open>net_change.cumsum()\<close> keeps the first value and adds each later value to
  the sum before it; \<^verbatim>\<open>start_balance + ...\<close> then adds the starting balance to every
  partial sum.\<close>

fun cumsum_from :: "arith \<Rightarrow> real \<Rightarrow> real list \<Rightarrow> real list" where
  "cumsum_from ar acc [] = []"
| "cumsum_from ar acc (x # xs) = f_add ar acc x # cumsum_from ar (f_add ar acc x) xs"

definition cumsum :: "arith \<Rightarrow> real list \<Rightarrow> real list" where
  "cumsum ar xs = (case xs of [] \<Rightarrow> [] | x # xs' \<Rightarrow> x # cumsum_from ar x xs')"

definition running_balance :: "arith \<Rightarrow> real \<Rightarrow> calendar_row list \<Rightarrow> calendar_row list" where
  "running_balance ar start_balance calendar_df =
     map (\<lambda>(r, c). r\<lparr>balance := f_add ar start_balance c\<rparr>)
       (zip calendar_df
          (cumsum ar (map (\<lambda>r. case net_change r of None \<Rightarrow> 0 | Some n \<Rightarrow> n) calendar_df)))"

definition get_calendar_data ::
  "arith \<Rightarrow> store \<Rightarrow> string \<Rightarrow> date \<Rightarrow> date \<Rightarrow> calendar_row list" where
  "get_calendar_data ar s u view_start view_end =
     (case get_user_settings s u of
        None \<Rightarrow> []
      | Some settings \<Rightarrow>
          let start_balance = st_start_balance settings;
              start_date = st_start_date settings;
              all_transactions = get_all_transactions_after s u start_date
          in if all_transactions = []
             then map (\<lambda>d. \<lparr>cal_date = d, credits = 0, debits = 0, is_actual = True,
                             net_change = None, balance = start_balance\<rparr>)
                    (date_range view_start view_end)
             else
               let df = map fst all_transactions;
                   summary = daily_summary ar df;
                   calendar_df = map (merge_day summary) (date_range start_date view_end);
                   calendar_df = running_balance ar start_balance calendar_df
               in filter (\<lambda>r. cal_date r \<ge> view_start \<and> cal_date r \<le> view_end) calendar_df)"

section \<open>The schedule expander (engine.run_projection)\<close>

text \<open>The \<^verbatim>\<open>if / elif\<close> chain on the frequency, written twice in the source (before
  the loop and at the end of its body) with the same branches. It has no \<^verbatim>\<open>else\<close>:
  for any other frequency the date is left as it is.\<close>

definition step_date :: "string \<Rightarrow> date \<Rightarrow> error + date" where
  "step_date freq current_date =
     (if freq = ''daily'' then add_days 1 current_date
      else if freq = ''weekly'' then add_days 7 current_date
      else if freq = ''bi-weekly'' then add_days 14 current_date
      else if freq = ''monthly'' then add_months 1 current_date
      else if freq = ''bi-monthly'' then add_months 2 current_date
      else Inr current_date)"

definition loop_end_date :: "date \<Rightarrow> schedule_row \<Rightarrow> date" where
  "loop_end_date projection_end_date sch =
     (case s_end_date sch of
        None \<Rightarrow> projection_end_date
      | Some rule_end_date \<Rightarrow>
          if rule_end_date < projection_end_date then rule_end_date else projection_end_date)"

text \<open>The first statement of the loop body: the guarded \<^verbatim>\<open>add_transaction\<close>.\<close>

definition write_occurrence :: "string \<Rightarrow> schedule_row \<Rightarrow> date \<Rightarrow> store \<Rightarrow> error + store" where
  "write_occurrence u sch current_date s =
     (if current_date \<ge> s_start_date sch
      then map_sum id snd
             (add_transaction s u current_date (s_category sch) (s_description sch)
                (s_amount sch) 0 (Some (schedule_id sch)))
      else Inr s)"

text \<open>The \<^verbatim>\<open>while current_date <= loop_end_date\<close> loop. It need not end, so it is a
  partial function: \<open>None\<close> is a run that never leaves the loop.\<close>

partial_function (option) generate ::
  "string \<Rightarrow> schedule_row \<Rightarrow> date \<Rightarrow> date \<Rightarrow> store \<Rightarrow> outcome option" where
  "generate u sch loop_end current_date s =
     (if current_date \<le> loop_end
      then (case write_occurrence u sch current_date s of
              Inl e \<Rightarrow> Some (Raised e s)
            | Inr s' \<Rightarrow>
                (case step_date (frequency sch) current_date of
                   Inl e \<Rightarrow> Some (Raised e s')
                 | Inr next_date \<Rightarrow> generate u sch loop_end next_date s'))
      else Some (Returned s))"

declare generate.simps [code]

text \<open>One pass of the \<^verbatim>\<open>for schedule in schedules\<close> body.\<close>

definition expand_schedule :: "string \<Rightarrow> date \<Rightarrow> store \<Rightarrow> schedule_row \<Rightarrow> outcome option" where
  "expand_schedule u projection_end_date s sch =
     (let start_date = s_start_date sch;
          current_date = (case get_last_generated_date s u (schedule_id sch) of
                            None \<Rightarrow> start_date
                          | Some last_gen_date \<Rightarrow> last_gen_date)
      in case step_date (frequency sch) current_date of
           Inl e \<Rightarrow> Some (Raised e s)
         | Inr current_date \<Rightarrow>
             generate u sch (loop_end_date projection_end_date sch) current_date s)"

fun run_schedules :: "string \<Rightarrow> date \<Rightarrow> schedule_row list \<Rightarrow> store \<Rightarrow> outcome option" where
  "run_schedules u projection_end_date [] s = Some (Returned s)"
| "run_schedules u projection_end_date (sch # rest) s =
     (case expand_schedule u projection_end_date s sch of
        None \<Rightarrow> None
      | Some (Raised e s') \<Rightarrow> Some (Raised e s')
      | Some (Returned s') \<Rightarrow> run_schedules u projection_end_date rest s')"

definition run_projection :: "store \<Rightarrow> string \<Rightarrow> date \<Rightarrow> outcome option" where
  "run_projection s u projection_end_date =
     run_schedules u projection_end_date (map fst (get_scheduled_transactions s u)) s"

section \<open>Example stores\<close>

text \<open>A user who has signed in but has no settings row.\<close>

definition store_unconfigured :: store where
  "store_unconfigured =
     \<lparr>users = [''bob''], user_settings = [], categories = [],
      scheduled_transactions = [], transactions = [], seq_transactions = 0\<rparr>"

text \<open>A configured user with three dated entries of her own, and a second user.\<close>

definition store_ledger :: store where
  "store_ledger =
     \<lparr>users = [''alice'', ''bob''],
      user_settings =
        [\<lparr>st_user = ''alice'', st_start_balance = 1000, st_start_date = (2024, 1, 10)\<rparr>],
      categories = [],
      scheduled_transactions = [],
      transactions =
        [\<lparr>transaction_id = 1, t_user = ''alice'', t_schedule = None, t_category = None,
          t_date = (2024, 1, 10), t_description = ''Rent'', t_amount = - 100, is_confirmed = 1\<rparr>,
         \<lparr>transaction_id = 2, t_user = ''alice'', t_schedule = None, t_category = None,
          t_date = (2024, 1, 12), t_description = ''Pay'', t_amount = 250, is_confirmed = 0\<rparr>,
         \<lparr>transaction_id = 3, t_user = ''bob'', t_schedule = None, t_category = None,
          t_date = (2024, 1, 11), t_description = ''Gift'', t_amount = 40, is_confirmed = 1\<rparr>],
      seq_transactions = 3\<rparr>"

text \<open>The stores of the expansion scenarios: one user, her settings, the given rules
  and no transaction yet; and the store the end-to-end scenario ends in.\<close>

definition rent_rule :: "string \<Rightarrow> date \<Rightarrow> schedule_row" where
  "rent_rule freq start =
     \<lparr>schedule_id = 1, s_user = ''alice'', s_category = None, s_description = ''Rent'',
      s_amount = - 100, frequency = freq, s_start_date = start, s_end_date = None\<rparr>"

definition gym_rule :: schedule_row where
  "gym_rule =
     \<lparr>schedule_id = 2, s_user = ''alice'', s_category = None, s_description = ''Gym'',
      s_amount = - 30, frequency = ''monthly'', s_start_date = (2024, 1, 1), s_end_date = None\<rparr>"

definition store_rules :: "schedule_row list \<Rightarrow> store" where
  "store_rules rules =
     \<lparr>users = [''alice''],
      user_settings =
        [\<lparr>st_user = ''alice'', st_start_balance = 1000, st_start_date = (2024, 1, 1)\<rparr>],
      categories = [],
      scheduled_transactions = rules,
      transactions = [],
      seq_transactions = 0\<rparr>"

definition rent_occurrence :: "nat \<Rightarrow> date \<Rightarrow> transaction_row" where
  "rent_occurrence i d =
     \<lparr>transaction_id = i, t_user = ''alice'', t_schedule = Some 1, t_category = None,
      t_date = d, t_description = ''Rent'', t_amount = - 100, is_confirmed = 0\<rparr>"

definition store_rent_expanded :: store where
  "store_rent_expanded =
     (store_rules [rent_rule ''monthly'' (2024, 1, 1)])
       \<lparr>transactions := [rent_occurrence 1 (2024, 2, 1), rent_occurrence 2 (2024, 3, 1),
                         rent_occurrence 3 (2024, 4, 1)],
        seq_transactions := 3\<rparr>"

text \<open>A store in which a transaction of one user references a category of another.\<close>

definition store_shared_category :: "string \<Rightarrow> store" where
  "store_shared_category name =
     \<lparr>users = [''alice'', ''bob''],
      user_settings = [],
      categories = [\<lparr>category_id = 1, c_user = ''alice'', c_name = name, c_type = ''credit''\<rparr>],
      scheduled_transactions = [],
      transactions =
        [\<lparr>transaction_id = 1, t_user = ''bob'', t_schedule = None, t_category = Some 1,
          t_date = (2024, 1, 5), t_description = ''Pay'', t_amount = 50, is_confirmed = 1\<rparr>],
      seq_transactions = 1\<rparr>"

section \<open>Notions used in the statements and proofs\<close>

text \<open>The bins of the daily grouping, and the net change a merged row carries.\<close>

definition bins :: "transaction_row list \<Rightarrow> date list" where
  "bins df =
     (case df of [] \<Rightarrow> []
      | t # ts \<Rightarrow> date_range (fold min (map t_date ts) (t_date t))
                               (fold max (map t_date ts) (t_date t)))"

definition net_of :: "calendar_row \<Rightarrow> real" where
  "net_of r = (case net_change r of None \<Rightarrow> 0 | Some n \<Rightarrow> n)"

text \<open>The arithmetic of the real numbers, in which no addition rounds. Float64 adds whole
  numbers below \<^verbatim>\<open>2 ** 53\<close> without rounding, so on the example stores, whose amounts and
  balances are small whole numbers, the float64 operations give these same values.\<close>

definition exact_arith :: arith where
  "exact_arith = \<lparr>f_add = (+), f_sum = sum_list\<rparr>"

text \<open>The first day of the returned frame: the dense grid starts at the anchor date as
  soon as the user has an entry on or after it, otherwise the flat frame covers the
  whole window.\<close>

definition first_day :: "store \<Rightarrow> string \<Rightarrow> settings_row \<Rightarrow> date \<Rightarrow> date" where
  "first_day s u st view_start =
     (if \<exists>t \<in> set (transactions s). t_user t = u \<and> st_start_date st \<le> t_date t
      then max view_start (st_start_date st) else view_start)"

text \<open>For the expander: whether the foreign keys let a rule's occurrence be inserted,
  the row the loop body inserts, the stored dates of a rule and the date a run resumes
  from, a store that differs from another by appended rows of given rules, an outcome
  with its store replaced, and the dates a run leaves in the store.\<close>

definition writable :: "store \<Rightarrow> string \<Rightarrow> schedule_row \<Rightarrow> bool" where
  "writable s u sch =
     (u \<in> set (users s)
      \<and> fk_parent_ok (map schedule_id (scheduled_transactions s)) (Some (schedule_id sch))
      \<and> fk_parent_ok (map category_id (categories s)) (s_category sch))"

definition occurrence_row :: "store \<Rightarrow> string \<Rightarrow> schedule_row \<Rightarrow> date \<Rightarrow> transaction_row" where
  "occurrence_row s u sch d =
     \<lparr>transaction_id = Suc (seq_transactions s), t_user = u, t_schedule = Some (schedule_id sch),
      t_category = s_category sch, t_date = d, t_description = s_description sch,
      t_amount = s_amount sch, is_confirmed = 0\<rparr>"

definition rule_dates :: "store \<Rightarrow> string \<Rightarrow> nat \<Rightarrow> date list" where
  "rule_dates s u sid =
     map t_date (filter (\<lambda>t. t_user t = u \<and> t_schedule t = Some sid) (transactions s))"

definition resume_date :: "store \<Rightarrow> string \<Rightarrow> schedule_row \<Rightarrow> date" where
  "resume_date s u sch =
     (case get_last_generated_date s u (schedule_id sch) of
        None \<Rightarrow> s_start_date sch | Some d \<Rightarrow> d)"

definition extends_by :: "string \<Rightarrow> nat set \<Rightarrow> store \<Rightarrow> store \<Rightarrow> bool" where
  "extends_by u S s s' =
     (\<exists>new n. s' = s\<lparr>transactions := transactions s @ new, seq_transactions := n\<rparr>
        \<and> (\<forall>t \<in> set new. t_user t = u \<and> t_schedule t \<in> Some ` S))"

fun with_store :: "outcome \<Rightarrow> store \<Rightarrow> outcome" where
  "with_store (Returned _) s = Returned s"
| "with_store (Raised e _) s = Raised e s"

definition generated_dates :: "outcome option \<Rightarrow> date list option" where
  "generated_dates res = map_option (\<lambda>r. map t_date (transactions (final_store r))) res"

text \<open>For the isolation of users: the rows of a user in the four tables that carry a
  user id, the foreign keys of \<^verbatim>\<open>create_tables\<close> as a property of a store, a
  transaction without its id, the occurrences of a user up to their ids, and two outcomes
  that end the same way with the same occurrences of the user.\<close>

definition user_rows ::
  "string \<Rightarrow> store
     \<Rightarrow> settings_row list \<times> category_row list \<times> schedule_row list \<times> transaction_row list" where
  "user_rows v s =
     (filter (\<lambda>r. st_user r = v) (user_settings s),
      filter (\<lambda>r. c_user r = v) (categories s),
      filter (\<lambda>r. s_user r = v) (scheduled_transactions s),
      filter (\<lambda>r. t_user r = v) (transactions s))"

definition fk_ok :: "store \<Rightarrow> bool" where
  "fk_ok s =
     ((\<forall>r \<in> set (user_settings s). st_user r \<in> set (users s))
      \<and> (\<forall>c \<in> set (categories s). c_user c \<in> set (users s))
      \<and> (\<forall>r \<in> set (scheduled_transactions s).
            s_user r \<in> set (users s)
            \<and> fk_parent_ok (map category_id (categories s)) (s_category r))
      \<and> (\<forall>t \<in> set (transactions s).
            t_user t \<in> set (users s)
            \<and> fk_parent_ok (map schedule_id (scheduled_transactions s)) (t_schedule t)
            \<and> fk_parent_ok (map category_id (categories s)) (t_category t)))"

definition erase_id :: "transaction_row \<Rightarrow> transaction_row" where
  "erase_id t = t\<lparr>transaction_id := 0\<rparr>"

definition occurrences_of :: "string \<Rightarrow> store \<Rightarrow> transaction_row list" where
  "occurrences_of u s = map erase_id (filter (\<lambda>t. t_user t = u) (transactions s))"

fun same_exit :: "outcome \<Rightarrow> outcome \<Rightarrow> bool" where
  "same_exit (Returned _) (Returned _) = True"
| "same_exit (Raised e _) (Raised e' _) = (e = e')"
| "same_exit _ _ = False"

definition same_projection :: "string \<Rightarrow> outcome \<Rightarrow> outcome \<Rightarrow> bool" where
  "same_projection u r r' =
     (same_exit r r' \<and> occurrences_of u (final_store r) = occurrences_of u (final_store r'))"

text \<open>For termination: a rank of dates that grows with every step, and the five
  frequencies the expander knows.\<close>

definition day_rank :: "date \<Rightarrow> nat" where
  "day_rank dt = 372 * fst dt + 31 * fst (snd dt) + snd (snd dt)"

definition known_frequency :: "string \<Rightarrow> bool" where
  "known_frequency f = (f \<in> set [''daily'', ''weekly'', ''bi-weekly'', ''monthly'', ''bi-monthly''])"

section \<open>Aggregation without settings\<close>

text \<open>
  Claim C9. A user with no row in \<^verbatim>\<open>user_settings\<close> gets the empty frame, for every
  view window; the model of \<^verbatim>\<open>get_calendar_data\<close> has no error result on this path.
\<close>

theorem get_calendar_data_no_settings:
  "get_user_settings s u = None \<Longrightarrow> get_calendar_data ar s u view_start view_end = []"
  by (simp add: get_calendar_data_def)

theorem get_calendar_data_no_settings_witness:
  "get_user_settings store_unconfigured ''bob'' = None
   \<and> (\<forall>ar. get_calendar_data ar store_unconfigured ''bob'' (2024, 1, 1) (2024, 1, 31) = [])"
proof -
  have h: "get_user_settings store_unconfigured ''bob'' = None"
    by (simp add: get_user_settings_def store_unconfigured_def)
  show ?thesis
    using h get_calendar_data_no_settings [OF h, of _ "(2024, 1, 1)" "(2024, 1, 31)"] by simp
qed

section \<open>Facts about dates\<close>

lemma dim_bounds: "28 \<le> days_in_month y m" "days_in_month y m \<le> 31"
  by (simp_all add: days_in_month_def)

lemma date_less_iff:
  "((y, m, d) < ((y', m', d') :: date)) = (y < y' \<or> (y = y' \<and> (m < m' \<or> (m = m' \<and> d < d'))))"
  by auto

lemma date_le_iff:
  "((y, m, d) \<le> ((y', m', d') :: date)) = (y < y' \<or> (y = y' \<and> (m < m' \<or> (m = m' \<and> d \<le> d'))))"
  by auto

lemma next_day_greater: "d < next_day d"
  by (cases d) auto

lemma valid_next_day:
  assumes "valid_date a" "valid_date x" "a < x" shows "valid_date (next_day a)"
proof -
  obtain y m d where a: "a = (y, m, d)" by (cases a) auto
  obtain y' m' d' where x: "x = (y', m', d')" by (cases x) auto
  have b: "28 \<le> days_in_month y (m + 1)" "28 \<le> days_in_month (y + 1) 1" by (rule dim_bounds)+
  show ?thesis using assms b unfolding a x
    by (auto simp del: less_prod_simp less_eq_prod_simp simp add: date_less_iff date_le_iff split: if_splits)
qed

lemma next_day_least:
  assumes "valid_date a" "valid_date x" "a < x" shows "next_day a \<le> x"
proof -
  obtain y m d where a: "a = (y, m, d)" by (cases a) auto
  obtain y' m' d' where x: "x = (y', m', d')" by (cases x) auto
  show ?thesis using assms unfolding a x
    by (auto simp del: less_prod_simp less_eq_prod_simp simp add: date_less_iff date_le_iff split: if_splits)
qed


lemma date_range_Nil: "\<not> (valid_date s \<and> valid_date e \<and> s \<le> e) \<Longrightarrow> date_range s e = []"
  by (subst date_range.simps) simp

lemma date_range_Cons:
  "valid_date s \<Longrightarrow> valid_date e \<Longrightarrow> s \<le> e \<Longrightarrow> date_range s e = s # date_range (next_day s) e"
  by (subst date_range.simps) simp

lemma date_range_Nil_gt: "e < s \<Longrightarrow> date_range s e = []"
  by (rule date_range_Nil) auto

lemma date_range_last: "valid_date e \<Longrightarrow> date_range e e = [e]"
  using next_day_greater[of e] by (simp add: date_range_Cons date_range_Nil_gt)

lemma set_date_range:
  "valid_date a \<Longrightarrow> valid_date b \<Longrightarrow>
     set (date_range a b) = {d. valid_date d \<and> a \<le> d \<and> d \<le> b}"
proof (induction a b rule: date_range.induct)
  case (1 s e)
  show ?case
  proof (cases "s < e")
    case False
    show ?thesis
    proof (cases "s = e")
      case True
      then show ?thesis using 1(2) by (auto simp: date_range_last)
    next
      case False
      with \<open>\<not> s < e\<close> have "\<not> s \<le> e" by auto
      then show ?thesis by (auto simp: date_range_Nil)
    qed
  next
    case True
    have v: "valid_date (next_day s)" using valid_next_day[OF 1(2) 1(3) True] .
    have IH: "set (date_range (next_day s) e) = {d. valid_date d \<and> next_day s \<le> d \<and> d \<le> e}"
      using 1(1) 1(2,3) True v by simp
    have "{d. valid_date d \<and> s \<le> d \<and> d \<le> e}
            = insert s {d. valid_date d \<and> next_day s \<le> d \<and> d \<le> e}" (is "?L = ?R")
    proof (rule set_eqI)
      fix d
      show "d \<in> ?L \<longleftrightarrow> d \<in> ?R"
      proof (cases "d = s")
        case True
        then show ?thesis using 1(2) \<open>s < e\<close> by auto
      next
        case False
        have "s < d \<Longrightarrow> valid_date d \<Longrightarrow> next_day s \<le> d" using next_day_least[OF 1(2)] by blast
        moreover have "next_day s \<le> d \<Longrightarrow> s \<le> d"
          using next_day_greater[of s] by (meson less_le_not_le order_trans linear)
        ultimately show ?thesis using False by auto
      qed
    qed
    then show ?thesis using IH 1(2,3) True by (simp add: date_range_Cons)
  qed
qed

lemma date_range_valid: "d \<in> set (date_range a b) \<Longrightarrow> valid_date d \<and> a \<le> d \<and> d \<le> b"
proof (cases "valid_date a \<and> valid_date b")
  case True
  assume "d \<in> set (date_range a b)"
  then show ?thesis using True by (simp add: set_date_range)
next
  case False
  then have "date_range a b = []" by (intro date_range_Nil) blast
  moreover assume "d \<in> set (date_range a b)"
  ultimately show ?thesis by simp
qed

lemma sorted_date_range: "sorted_wrt (<) (date_range a b)"
proof (induction a b rule: date_range.induct)
  case (1 s e)
  show ?case
  proof (cases "valid_date s \<and> valid_date e \<and> s \<le> e")
    case False
    then show ?thesis by (simp add: date_range_Nil)
  next
    case True
    have "\<forall>x \<in> set (date_range (next_day s) e). s < x"
    proof
      fix x assume "x \<in> set (date_range (next_day s) e)"
      then have "next_day s \<le> x" using date_range_valid by blast
      then show "s < x" using next_day_greater[of s] by (rule order.strict_trans2[rotated])
    qed
    then show ?thesis using 1 True by (simp add: date_range_Cons)
  qed
qed

section \<open>The daily grouping and the running balance\<close>

lemma summarize_day_fields:
  "sm_date (summarize_day ar df d) = d"
  "sm_is_actual (summarize_day ar df d)
     = list_all (\<lambda>t. is_confirmed t = 1) (filter (\<lambda>t. t_date t = d) df)"
  by (simp_all add: summarize_day_def Let_def)

lemma find_summary:
  "find (\<lambda>r. sm_date r = d) (map (summarize_day ar df) ds)
     = (if d \<in> set ds then Some (summarize_day ar df d) else None)"
  by (induction ds) (auto simp: summarize_day_fields)

lemma fold_min_Min: "fold min xs (x::'a::linorder) = Min (set (x # xs))"
  by (simp only: Min.set_eq_fold)

lemma fold_max_Max: "fold max xs (x::'a::linorder) = Max (set (x # xs))"
  by (simp only: Max.set_eq_fold)

lemma daily_summary_bins: "daily_summary ar df = map (summarize_day ar df) (bins df)"
  by (simp add: daily_summary_def bins_def split: list.splits)

lemma bins_cover:
  assumes "\<forall>t \<in> set df. valid_date (t_date t)" "t \<in> set df"
  shows "t_date t \<in> set (bins df)"
proof (cases df)
  case Nil
  then show ?thesis using assms by simp
next
  case (Cons t0 ts)
  let ?lo = "fold min (map t_date ts) (t_date t0)"
  let ?hi = "fold max (map t_date ts) (t_date t0)"
  have sets: "set (t_date t0 # map t_date ts) = t_date ` set df" unfolding Cons by simp
  have ne: "t_date ` set df \<noteq> {}" unfolding Cons by simp
  have "?lo \<in> t_date ` set df" "?hi \<in> t_date ` set df"
    unfolding fold_min_Min fold_max_Max sets using ne by (auto intro: Min_in Max_in)
  then have v: "valid_date ?lo" "valid_date ?hi" using assms(1) by auto
  have "?lo \<le> t_date t" "t_date t \<le> ?hi"
    unfolding fold_min_Min fold_max_Max sets using assms(2)
    by (auto intro: Min_le Max_ge)
  moreover have "valid_date (t_date t)" using assms by blast
  ultimately show ?thesis using v unfolding bins_def Cons
    by (simp only: list.case set_date_range mem_Collect_eq simp_thms)
qed

lemma merge_day_fields:
  "cal_date (merge_day sm d) = d"
  by (simp add: merge_day_def split: option.splits)

text \<open>A day on which the frame holds no entry has net change 0 as soon as the sum of an
  empty group is 0 and 0 + 0 is 0: inside the bins the group is empty, outside them
  \<^verbatim>\<open>fillna(0)\<close> writes the 0.\<close>

lemma merge_day_quiet:
  assumes "filter (\<lambda>t. t_date t = d) df = []" "f_sum ar [] = 0" "f_add ar 0 0 = 0"
  shows "net_change (merge_day (daily_summary ar df) d) = Some 0"
  using assms
  by (simp add: merge_day_def daily_summary_bins find_summary summarize_day_def Let_def)

lemma cumsum_from_length: "length (cumsum_from ar acc xs) = length xs"
  by (induction xs arbitrary: acc) auto

lemma cumsum_length: "length (cumsum ar xs) = length xs"
  by (simp add: cumsum_def cumsum_from_length split: list.splits)

lemma cumsum_from_nth_0: "xs \<noteq> [] \<Longrightarrow> cumsum_from ar acc xs ! 0 = f_add ar acc (xs ! 0)"
  by (cases xs) auto

lemma cumsum_from_nth_Suc:
  "Suc i < length xs \<Longrightarrow>
     cumsum_from ar acc xs ! Suc i = f_add ar (cumsum_from ar acc xs ! i) (xs ! Suc i)"
proof (induction xs arbitrary: acc i)
  case Nil
  then show ?case by simp
next
  case (Cons x xs)
  show ?case
  proof (cases i)
    case 0
    then show ?thesis using Cons(2) by (simp add: cumsum_from_nth_0)
  next
    case (Suc j)
    then show ?thesis using Cons by simp
  qed
qed

lemma cumsum_nth_Suc:
  assumes "Suc i < length xs"
  shows "cumsum ar xs ! Suc i = f_add ar (cumsum ar xs ! i) (xs ! Suc i)"
proof (cases xs)
  case Nil
  then show ?thesis using assms by simp
next
  case (Cons x xs')
  show ?thesis
  proof (cases i)
    case 0
    then show ?thesis using assms unfolding Cons by (simp add: cumsum_def cumsum_from_nth_0)
  next
    case (Suc j)
    then show ?thesis using assms unfolding Cons by (simp add: cumsum_def cumsum_from_nth_Suc)
  qed
qed

lemma running_balance_length: "length (running_balance ar b rs) = length rs"
  by (simp add: running_balance_def cumsum_length)

lemma running_balance_nth:
  "i < length rs \<Longrightarrow>
     running_balance ar b rs ! i
       = (rs ! i)\<lparr>balance := f_add ar b (cumsum ar (map net_of rs) ! i)\<rparr>"
proof -
  have "(\<lambda>r. case net_change r of None \<Rightarrow> 0 | Some n \<Rightarrow> n) = net_of"
    by (rule ext) (simp add: net_of_def)
  then show "i < length rs \<Longrightarrow> ?thesis"
    by (simp add: running_balance_def cumsum_length)
qed

lemma running_balance_dates: "map cal_date (running_balance ar b rs) = map cal_date rs"
  by (rule nth_equalityI) (simp_all add: running_balance_length running_balance_nth)

lemma date_range_nth_Suc:
  "Suc i < length (date_range a b) \<Longrightarrow> date_range a b ! Suc i = next_day (date_range a b ! i)"
proof (induction a b arbitrary: i rule: date_range.induct)
  case (1 s e)
  show ?case
  proof (cases "valid_date s \<and> valid_date e \<and> s \<le> e")
    case False
    then have "date_range s e = []" by (rule date_range_Nil)
    then show ?thesis using 1(2) by simp
  next
    case True
    then have c: "date_range s e = s # date_range (next_day s) e" by (simp add: date_range_Cons)
    show ?thesis
    proof (cases i)
      case 0
      have "date_range (next_day s) e \<noteq> []" using 1(2) unfolding c 0 by auto
      then have "valid_date (next_day s) \<and> valid_date e \<and> next_day s \<le> e"
        using date_range_Nil[of "next_day s" e] by blast
      then have "date_range (next_day s) e = next_day s # date_range (next_day (next_day s)) e"
        by (simp add: date_range_Cons)
      then show ?thesis unfolding c 0 by simp
    next
      case (Suc j)
      have "Suc j < length (date_range (next_day s) e)" using 1(2) unfolding c Suc by simp
      from 1(1)[OF True this] show ?thesis unfolding c Suc by simp
    qed
  qed
qed

lemma df_of_all:
  "map fst (get_all_transactions_after s u a)
     = sort_key (\<lambda>t. (t_date t, transaction_id t))
         (filter (\<lambda>t. t_user t = u \<and> a \<le> t_date t) (transactions s))"
  by (simp add: get_all_transactions_after_def comp_def)

lemma all_empty_iff:
  "get_all_transactions_after s u a = []
     \<longleftrightarrow> filter (\<lambda>t. t_user t = u \<and> a \<le> t_date t) (transactions s) = []"
proof -
  have "get_all_transactions_after s u a = [] \<longleftrightarrow> map fst (get_all_transactions_after s u a) = []"
    by simp
  also have "\<dots> \<longleftrightarrow> mset (map fst (get_all_transactions_after s u a)) = {#}"
    by (simp only: mset_zero_iff)
  also have "\<dots> \<longleftrightarrow> filter (\<lambda>t. t_user t = u \<and> a \<le> t_date t) (transactions s) = []"
    unfolding df_of_all by (simp only: mset_sort mset_zero_iff)
  finally show ?thesis .
qed

lemma max_valid: "valid_date a \<Longrightarrow> valid_date b \<Longrightarrow> valid_date (max a b)"
  by (simp add: max_def)

lemma window_of_grid:
  assumes "valid_date vs" "valid_date a" "valid_date ve"
  shows "filter (\<lambda>d. vs \<le> d \<and> d \<le> ve) (date_range a ve) = date_range (max vs a) ve"
proof (rule strict_sorted_equal)
  show "sorted_wrt (<) (filter (\<lambda>d. vs \<le> d \<and> d \<le> ve) (date_range a ve))"
    using sorted_date_range by (rule sorted_wrt_filter)
  show "sorted_wrt (<) (date_range (max vs a) ve)" by (rule sorted_date_range)
  show "set (filter (\<lambda>d. vs \<le> d \<and> d \<le> ve) (date_range a ve)) = set (date_range (max vs a) ve)"
    using assms by (auto simp only: set_filter set_date_range max_valid mem_Collect_eq max.bounded_iff)
qed

text \<open>The frame of the branch with transactions, and the dates of the returned rows.\<close>

lemma calendar_grid:
  assumes "get_user_settings s u = Some st"
      and "get_all_transactions_after s u (st_start_date st) \<noteq> []"
  shows "get_calendar_data ar s u view_start view_end
           = filter (\<lambda>r. view_start \<le> cal_date r \<and> cal_date r \<le> view_end)
               (running_balance ar (st_start_balance st)
                  (map (merge_day
                          (daily_summary ar (map fst (get_all_transactions_after s u (st_start_date st)))))
                     (date_range (st_start_date st) view_end)))"
  using assms by (simp add: get_calendar_data_def Let_def)

lemma calendar_flat:
  assumes "get_user_settings s u = Some st"
      and "get_all_transactions_after s u (st_start_date st) = []"
  shows "get_calendar_data ar s u view_start view_end
           = map (\<lambda>d. \<lparr>cal_date = d, credits = 0, debits = 0, is_actual = True,
                         net_change = None, balance = st_start_balance st\<rparr>)
               (date_range view_start view_end)"
  using assms by (simp add: get_calendar_data_def Let_def)

lemma calendar_dates:
  assumes st: "get_user_settings s u = Some st"
      and v: "valid_date view_start" "valid_date view_end" "valid_date (st_start_date st)"
  shows "map cal_date (get_calendar_data ar s u view_start view_end)
           = date_range (if get_all_transactions_after s u (st_start_date st) = []
                         then view_start else max view_start (st_start_date st)) view_end"
proof (cases "get_all_transactions_after s u (st_start_date st) = []")
  case True
  then show ?thesis by (simp add: calendar_flat[OF st True] comp_def)
next
  case False
  have "map cal_date (get_calendar_data ar s u view_start view_end)
          = filter (\<lambda>d. view_start \<le> d \<and> d \<le> view_end)
              (map cal_date (running_balance ar (st_start_balance st)
                 (map (merge_day (daily_summary ar (map fst (get_all_transactions_after s u (st_start_date st)))))
                    (date_range (st_start_date st) view_end))))"
    by (simp add: calendar_grid[OF st False] filter_map comp_def)
  also have "\<dots> = filter (\<lambda>d. view_start \<le> d \<and> d \<le> view_end) (date_range (st_start_date st) view_end)"
    by (simp add: running_balance_dates comp_def merge_day_fields)
  finally show ?thesis using False v by (simp only: window_of_grid if_False)
qed

lemma quiet_day_balance:
  assumes st: "get_user_settings s u = Some st"
      and z: "f_sum ar [] = 0"
      and a0: "\<forall>x. f_add ar x 0 = x"
      and r: "r \<in> set (get_calendar_data ar s u view_start view_end)"
      and r': "r' \<in> set (get_calendar_data ar s u view_start view_end)"
      and nxt: "cal_date r' = next_day (cal_date r)"
      and quiet: "\<forall>t \<in> set (transactions s). t_user t = u \<longrightarrow> t_date t \<noteq> cal_date r'"
  shows "balance r' = balance r"
proof (cases "get_all_transactions_after s u (st_start_date st) = []")
  case True
  show ?thesis using r r' unfolding calendar_flat[OF st True] by auto
next
  case False
  let ?df = "map fst (get_all_transactions_after s u (st_start_date st))"
  let ?grid = "date_range (st_start_date st) view_end"
  let ?rows = "map (merge_day (daily_summary ar ?df)) ?grid"
  let ?cs = "cumsum ar (map net_of ?rows)"
  let ?out = "running_balance ar (st_start_balance st) ?rows"
  have len: "length ?out = length ?grid" by (simp add: running_balance_length)
  have row: "\<And>k. k < length ?grid \<Longrightarrow>
               cal_date (?out ! k) = ?grid ! k
               \<and> balance (?out ! k) = f_add ar (st_start_balance st) (?cs ! k)"
    by (simp add: running_balance_nth merge_day_fields)
  from r obtain i where i: "i < length ?grid" and ri: "r = ?out ! i"
    unfolding calendar_grid[OF st False] using len by (auto simp: in_set_conv_nth)
  from r' obtain j where j: "j < length ?grid" and rj: "r' = ?out ! j"
    unfolding calendar_grid[OF st False] using len by (auto simp: in_set_conv_nth)
  have di: "cal_date r = ?grid ! i" and dj: "cal_date r' = ?grid ! j"
    using row[OF i] row[OF j] ri rj by simp_all
  have lt: "?grid ! i < ?grid ! j" using nxt next_day_greater[of "cal_date r"] unfolding di dj by simp
  have srt: "sorted_wrt (<) ?grid" by (rule sorted_date_range)
  have "i < j"
  proof (rule ccontr)
    assume "\<not> i < j"
    then consider "j = i" | "j < i" by fastforce
    then show False
    proof cases
      case 1
      then show ?thesis using lt by simp
    next
      case 2
      then have "?grid ! j < ?grid ! i" using srt i by (simp add: sorted_wrt_iff_nth_less)
      then show ?thesis using lt by simp
    qed
  qed
  then have si: "Suc i < length ?grid" using j by simp
  have "?grid ! Suc i = ?grid ! j" using date_range_nth_Suc[OF si] nxt unfolding di dj by simp
  moreover have "distinct ?grid" using srt by (simp add: strict_sorted_iff)
  ultimately have js: "j = Suc i" using si j by (simp add: nth_eq_iff_index_eq)
  have "filter (\<lambda>t. t_date t = cal_date r') ?df = []"
    using quiet unfolding df_of_all by (auto simp: filter_empty_conv)
  then have "net_change (merge_day (daily_summary ar ?df) (cal_date r')) = Some 0"
    using z a0 by (intro merge_day_quiet) simp_all
  then have "map net_of ?rows ! Suc i = 0"
    using si unfolding dj js by (simp add: net_of_def)
  moreover have "?cs ! Suc i = f_add ar (?cs ! i) (map net_of ?rows ! Suc i)"
    using si by (intro cumsum_nth_Suc) simp
  ultimately have "?cs ! Suc i = ?cs ! i" using a0 by simp
  then show ?thesis using row[OF i] row[OF si] unfolding ri rj js by simp
qed

section \<open>Claims about the aggregator\<close>

lemmas calendar_eval =
  get_calendar_data_def get_user_settings_def get_all_transactions_after_def
  join_category_def daily_summary_def summarize_day_def merge_day_def date_range.simps
  running_balance_def cumsum_def
  days_in_month_def is_leap_def credit_of_def debit_of_def Let_def

text \<open>
  Claim C7, as stated, fails: with an entry on the anchor date 2024-01-10, the window
  2024-01-08 to 2024-01-13 has six calendar days and four returned rows; the two days
  before the anchor date are missing. The dates of the rows are the same in every
  arithmetic (lemma \<^verbatim>\<open>calendar_dates\<close>).
\<close>

theorem one_row_per_window_day_counterexample:
  "map cal_date (get_calendar_data exact_arith store_ledger ''alice'' (2024, 1, 8) (2024, 1, 13))
     = [(2024, 1, 10), (2024, 1, 11), (2024, 1, 12), (2024, 1, 13)]
   \<and> date_range (2024, 1, 8) (2024, 1, 13)
     = [(2024, 1, 8), (2024, 1, 9), (2024, 1, 10), (2024, 1, 11), (2024, 1, 12), (2024, 1, 13)]"
  by (simp add: calendar_eval store_ledger_def)

lemma first_day_alt:
  "first_day s u st view_start
     = (if get_all_transactions_after s u (st_start_date st) = []
        then view_start else max view_start (st_start_date st))"
  by (auto simp: first_day_def all_empty_iff filter_empty_conv)

text \<open>
  Claim C7, amended. For a user with settings and a window and anchor of valid dates, the
  returned rows are in date order, one for each calendar day from the first day to
  \<^verbatim>\<open>view_end\<close>, where the first day is \<^verbatim>\<open>view_start\<close> when the user has no entry on or after
  the anchor date and the later of \<^verbatim>\<open>view_start\<close> and the anchor date otherwise. A returned
  day without entries of the user has the balance of the row of the day before, when that
  day is returned. The second part uses two facts of the arithmetic and no other: the sum
  of no values is 0 and adding 0 to a value gives that value, as float64 addition does.
\<close>

theorem calendar_gap_continuity:
  assumes "get_user_settings s u = Some st"
      and "valid_date view_start" "valid_date view_end" "valid_date (st_start_date st)"
      and "f_sum ar [] = 0" "\<forall>x. f_add ar x 0 = x"
  shows "map cal_date (get_calendar_data ar s u view_start view_end)
           = date_range (first_day s u st view_start) view_end
         \<and> sorted_wrt (<) (map cal_date (get_calendar_data ar s u view_start view_end))
         \<and> set (map cal_date (get_calendar_data ar s u view_start view_end))
             = {d. valid_date d \<and> first_day s u st view_start \<le> d \<and> d \<le> view_end}
         \<and> (\<forall>r \<in> set (get_calendar_data ar s u view_start view_end).
             \<forall>r' \<in> set (get_calendar_data ar s u view_start view_end).
               cal_date r' = next_day (cal_date r)
               \<and> (\<forall>t \<in> set (transactions s). t_user t = u \<longrightarrow> t_date t \<noteq> cal_date r')
               \<longrightarrow> balance r' = balance r)"
proof -
  have dates: "map cal_date (get_calendar_data ar s u view_start view_end)
                 = date_range (first_day s u st view_start) view_end"
    using calendar_dates[OF assms(1-4)] by (simp only: first_day_alt)
  have "valid_date (first_day s u st view_start)"
    unfolding first_day_def using assms(2,4) by (simp add: max_valid)
  then have "set (date_range (first_day s u st view_start) view_end)
               = {d. valid_date d \<and> first_day s u st view_start \<le> d \<and> d \<le> view_end}"
    using assms(3) by (rule set_date_range)
  moreover have "sorted_wrt (<) (date_range (first_day s u st view_start) view_end)"
    by (rule sorted_date_range)
  moreover have "\<forall>r \<in> set (get_calendar_data ar s u view_start view_end).
             \<forall>r' \<in> set (get_calendar_data ar s u view_start view_end).
               cal_date r' = next_day (cal_date r)
               \<and> (\<forall>t \<in> set (transactions s). t_user t = u \<longrightarrow> t_date t \<noteq> cal_date r')
               \<longrightarrow> balance r' = balance r"
    using quiet_day_balance[OF assms(1) assms(5) assms(6)] by blast
  ultimately show ?thesis unfolding dates by blast
qed

theorem calendar_gap_continuity_witness:
  "map cal_date (get_calendar_data exact_arith store_ledger ''alice'' (2024, 1, 8) (2024, 1, 13))
     = date_range (2024, 1, 10) (2024, 1, 13)
   \<and> balance \<lparr>cal_date = (2024, 1, 11), credits = 0, debits = 0, is_actual = True,
               net_change = Some 0, balance = 900\<rparr>
     = balance \<lparr>cal_date = (2024, 1, 10), credits = 0, debits = - 100, is_actual = True,
                 net_change = Some (- 100), balance = 900\<rparr>"
proof -
  let ?st = "\<lparr>st_user = ''alice'', st_start_balance = 1000, st_start_date = (2024, 1, 10)\<rparr>"
  let ?r = "\<lparr>cal_date = (2024, 1, 10), credits = 0, debits = - 100, is_actual = True,
             net_change = Some (- 100), balance = 900\<rparr>"
  let ?r' = "\<lparr>cal_date = (2024, 1, 11), credits = 0, debits = 0, is_actual = True,
              net_change = Some 0, balance = 900\<rparr>"
  let ?rows = "get_calendar_data exact_arith store_ledger ''alice'' (2024, 1, 8) (2024, 1, 13)"
  have h1: "get_user_settings store_ledger ''alice'' = Some ?st"
    by (simp add: get_user_settings_def store_ledger_def)
  have h2: "valid_date (2024, 1, 8)" "valid_date (2024, 1, 13)" "valid_date (st_start_date ?st)"
    by (simp_all add: days_in_month_def)
  have h3: "f_sum exact_arith [] = 0" "\<forall>x. f_add exact_arith x 0 = x"
    by (simp_all add: exact_arith_def)
  have fd: "first_day store_ledger ''alice'' ?st (2024, 1, 8) = (2024, 1, 10)"
    by (simp add: first_day_def store_ledger_def)
  have rows: "?r \<in> set ?rows" "?r' \<in> set ?rows"
    by (simp_all add: calendar_eval store_ledger_def exact_arith_def)
  have quiet: "cal_date ?r' = next_day (cal_date ?r)
      \<and> (\<forall>t \<in> set (transactions store_ledger). t_user t = ''alice'' \<longrightarrow> t_date t \<noteq> cal_date ?r')"
    by (simp add: store_ledger_def days_in_month_def)
  from calendar_gap_continuity [OF h1 h2 h3]
  have "map cal_date ?rows = date_range (first_day store_ledger ''alice'' ?st (2024, 1, 8)) (2024, 1, 13)"
    and "\<forall>r \<in> set ?rows. \<forall>r' \<in> set ?rows.
           cal_date r' = next_day (cal_date r)
           \<and> (\<forall>t \<in> set (transactions store_ledger). t_user t = ''alice'' \<longrightarrow> t_date t \<noteq> cal_date r')
           \<longrightarrow> balance r' = balance r"
    by blast+
  then show ?thesis using rows quiet unfolding fd by blast
qed

text \<open>
  Claim C8 says that \<^verbatim>\<open>is_actual\<close> is True exactly when every entry of the day is
  confirmed, hence on every day without entries. The code breaks the second part: the
  entry of 2024-01-12 is the user's last one and 2024-01-13 has none, yet its
  row has \<^verbatim>\<open>is_actual\<close> False: the left merge leaves the day without a bin and
  \<^verbatim>\<open>fillna(0)\<close> turns the missing flag into 0. The day 2024-01-11, inside the bins and
  without entries, is True, as is every day of the flat frame. The flags do not depend on
  the arithmetic.
\<close>

theorem is_actual_after_last_entry:
  "map (\<lambda>r. (cal_date r, is_actual r))
       (get_calendar_data ar store_ledger ''alice'' (2024, 1, 10) (2024, 1, 13))
     = [((2024, 1, 10), True), ((2024, 1, 11), True), ((2024, 1, 12), False),
        ((2024, 1, 13), False)]
   \<and> filter (\<lambda>t. t_user t = ''alice'' \<and> t_date t = (2024, 1, 13)) (transactions store_ledger) = []"
  by (simp add: calendar_eval store_ledger_def)

section \<open>Facts about the expander\<close>

lemma write_occurrence_cases:
  "write_occurrence u sch c s =
     (if s_start_date sch \<le> c
      then (if writable s u sch
            then Inr (s\<lparr>transactions := transactions s @ [occurrence_row s u sch c],
                        seq_transactions := Suc (seq_transactions s)\<rparr>)
            else Inl IntegrityError)
      else Inr s)"
  by (simp add: write_occurrence_def add_transaction_def writable_def occurrence_row_def Let_def)

lemma writable_after_write:
  "write_occurrence u sch c s = Inr s' \<Longrightarrow> writable s' u sch = writable s u sch"
  by (auto simp: write_occurrence_cases writable_def split: if_splits)

lemma generate_stuck:
  assumes "generate u sch le c s = Some r"
  shows "\<not> (step_date (frequency sch) c = Inr c \<and> c \<le> le \<and> writable s u sch)"
  using assms
proof (induction rule: generate.raw_induct[rotated 1, consumes 1])
  case (1 generate u sch le c s r)
  show ?case
  proof
    assume a: "step_date (frequency sch) c = Inr c \<and> c \<le> le \<and> writable s u sch"
    then obtain s' where w: "write_occurrence u sch c s = Inr s'"
      by (cases "s_start_date sch \<le> c") (auto simp: write_occurrence_cases)
    then have "writable s' u sch" using a by (simp add: writable_after_write)
    moreover have "generate u sch le c s' = Some r" using 1(2) a w by simp
    ultimately show False using 1(1) a by blast
  qed
qed

lemma add_days_mono: "add_days n d = Inr d' \<Longrightarrow> d \<le> d'"
proof (induction n d rule: add_days.induct)
  case (1 n dt)
  show ?case
  proof (cases "n = 0")
    case True
    then show ?thesis using 1(2) by (simp add: add_days.simps)
  next
    case False
    then have "next_day dt \<le> d'" using 1 by (simp add: add_days.simps[of n dt] split: if_splits)
    then show ?thesis using next_day_greater[of dt] by (meson less_imp_le order_trans)
  qed
qed

lemma add_months_mono: "0 < k \<Longrightarrow> add_months k d = Inr d' \<Longrightarrow> d \<le> d'"
  by (cases d) (auto simp: Let_def split: if_splits)

lemma step_date_mono: "step_date f c = Inr c' \<Longrightarrow> c \<le> c'"
  using add_days_mono[of _ c c'] add_months_mono[of 1 c c'] add_months_mono[of 2 c c']
  by (auto simp: step_date_def split: if_splits)

lemma expand_schedule_alt:
  "expand_schedule u h s sch =
     (case step_date (frequency sch) (resume_date s u sch) of
        Inl e \<Rightarrow> Some (Raised e s)
      | Inr c \<Rightarrow> generate u sch (loop_end_date h sch) c s)"
  by (simp add: expand_schedule_def resume_date_def Let_def)

lemma max_date_snoc: "\<forall>d \<in> set ds. d \<le> c \<Longrightarrow> max_date (ds @ [c]) = Some c"
  by (induction ds) (auto simp: max_def split: option.splits)

lemma max_date_bound: "max_date ds = Some m \<Longrightarrow> (\<forall>d \<in> set ds. d \<le> m) \<and> m \<in> set ds"
proof (induction ds arbitrary: m)
  case Nil
  then show ?case by simp
next
  case (Cons d ds)
  show ?case
  proof (cases "max_date ds")
    case None
    then have "ds = []" by (cases ds) (auto split: option.splits)
    then show ?thesis using Cons(2) by simp
  next
    case (Some m')
    then have "(\<forall>x \<in> set ds. x \<le> m') \<and> m' \<in> set ds" by (rule Cons(1))
    moreover have "m = max d m'" using Cons(2) Some by simp
    ultimately show ?thesis by (auto simp: max_def intro: order_trans)
  qed
qed

lemma resume_after_write:
  assumes "\<forall>d \<in> set (rule_dates s u (schedule_id sch)). d \<le> c"
  shows "resume_date (s\<lparr>transactions := transactions s @ [occurrence_row s u sch c],
                        seq_transactions := n\<rparr>) u sch = c"
  using max_date_snoc[OF assms]
  by (simp add: resume_date_def get_last_generated_date_def rule_dates_def occurrence_row_def)

lemma rule_dates_after_write:
  "rule_dates (s\<lparr>transactions := transactions s @ [occurrence_row s u sch c],
                 seq_transactions := n\<rparr>) u (schedule_id sch)
     = rule_dates s u (schedule_id sch) @ [c]"
  by (simp add: rule_dates_def occurrence_row_def)

lemma rule_dates_le_resume:
  "step_date (frequency sch) (resume_date s u sch) = Inr c
     \<Longrightarrow> \<forall>d \<in> set (rule_dates s u (schedule_id sch)). d \<le> c"
proof
  fix d assume c: "step_date (frequency sch) (resume_date s u sch) = Inr c"
    and d: "d \<in> set (rule_dates s u (schedule_id sch))"
  have "max_date ds = None \<Longrightarrow> ds = []" for ds
    by (cases ds) (auto split: option.splits)
  then obtain m where m: "get_last_generated_date s u (schedule_id sch) = Some m"
    using d unfolding get_last_generated_date_def rule_dates_def
    by (cases "max_date (map t_date (filter (\<lambda>t. t_user t = u \<and> t_schedule t = Some (schedule_id sch))
                  (transactions s)))") fastforce+
  then have "max_date (rule_dates s u (schedule_id sch)) = Some m"
    by (simp only: get_last_generated_date_def rule_dates_def)
  then have "d \<le> m" using max_date_bound d by blast
  moreover have "m \<le> c" using c m step_date_mono by (simp add: resume_date_def)
  ultimately show "d \<le> c" by (rule order_trans)
qed

text \<open>The loop, started anywhere a replay from the stored resume point would reach without
  writing, ends in a store from which the replay does nothing more.\<close>

lemma generate_resume:
  assumes "generate u sch le c s = Some r"
      and "expand_schedule u h s sch = generate u sch le c s"
      and "le = loop_end_date h sch"
      and "\<forall>d \<in> set (rule_dates s u (schedule_id sch)). d \<le> c"
  shows "expand_schedule u h (final_store r) sch = Some r"
  using assms
proof (induction arbitrary: h rule: generate.raw_induct[rotated 1, consumes 1])
  case (1 gen u sch le c s r)
  note body = 1(2) and inv = 1(3) and le = 1(4) and bound = 1(5)
  show ?case
  proof (cases "c \<le> le")
    case False
    then have r: "r = Returned s" using body by simp
    have "generate u sch le c s = Some (Returned s)" using False by (simp add: generate.simps)
    then show ?thesis using inv unfolding r by simp
  next
    case True
    show ?thesis
    proof (cases "write_occurrence u sch c s")
      case (Inl e)
      then have r: "r = Raised e s" using body True by simp
      have "generate u sch le c s = Some (Raised e s)" using True Inl by (simp add: generate.simps)
      then show ?thesis using inv unfolding r by simp
    next
      case (Inr s')
      have s'_cases: "(s_start_date sch \<le> c \<and> s' = s\<lparr>transactions := transactions s @ [occurrence_row s u sch c],
                         seq_transactions := Suc (seq_transactions s)\<rparr>)
                      \<or> (\<not> s_start_date sch \<le> c \<and> s' = s)"
        using Inr by (auto simp: write_occurrence_cases split: if_splits)
      show ?thesis
      proof (cases "step_date (frequency sch) c")
        case (Inl e)
        then have r: "r = Raised e s'" using body True Inr by simp
        from s'_cases show ?thesis
        proof
          assume a: "s_start_date sch \<le> c \<and> s' = s\<lparr>transactions := transactions s @ [occurrence_row s u sch c],
                         seq_transactions := Suc (seq_transactions s)\<rparr>"
          then have "resume_date s' u sch = c" using resume_after_write[OF bound] by simp
          then show ?thesis using Inl r by (simp add: expand_schedule_alt)
        next
          assume a: "\<not> s_start_date sch \<le> c \<and> s' = s"
          have "generate u sch le c s = Some (Raised e s)"
            using True Inr Inl a by (simp add: generate.simps[of u sch le c s])
          then show ?thesis using inv r a by simp
        qed
      next
        case (Inr c')
        then have rec: "gen u sch le c' s' = Some r" using body True \<open>write_occurrence u sch c s = Inr s'\<close> by simp
        have cc': "c \<le> c'" using Inr by (rule step_date_mono)
        have inv': "expand_schedule u h s' sch = generate u sch le c' s'"
          using s'_cases
        proof
          assume a: "s_start_date sch \<le> c \<and> s' = s\<lparr>transactions := transactions s @ [occurrence_row s u sch c],
                         seq_transactions := Suc (seq_transactions s)\<rparr>"
          then have "resume_date s' u sch = c" using resume_after_write[OF bound] by simp
          then show ?thesis using Inr le by (simp add: expand_schedule_alt)
        next
          assume a: "\<not> s_start_date sch \<le> c \<and> s' = s"
          have "generate u sch le c s = generate u sch le c' s"
            using True Inr \<open>write_occurrence u sch c s = Inr s'\<close> a by (simp add: generate.simps[of u sch le c s])
          then show ?thesis using inv a by simp
        qed
        have bound': "\<forall>d \<in> set (rule_dates s' u (schedule_id sch)). d \<le> c'"
          using s'_cases bound cc' by (auto simp: rule_dates_after_write intro: order_trans)
        show ?thesis using 1(1)[OF rec inv' le bound'] .
      qed
    qed
  qed
qed

lemma expand_schedule_idem:
  assumes "expand_schedule u h s sch = Some r"
  shows "expand_schedule u h (final_store r) sch = Some r"
proof (cases "step_date (frequency sch) (resume_date s u sch)")
  case (Inl e)
  then have "r = Raised e s" using assms by (simp add: expand_schedule_alt)
  then show ?thesis using assms by simp
next
  case (Inr c)
  then have g: "generate u sch (loop_end_date h sch) c s = Some r"
    using assms by (simp add: expand_schedule_alt)
  have "expand_schedule u h s sch = generate u sch (loop_end_date h sch) c s"
    using Inr by (simp add: expand_schedule_alt)
  then show ?thesis using generate_resume[OF g _ refl rule_dates_le_resume[OF Inr]] by blast
qed

lemma extends_by_refl: "extends_by u S s s"
  unfolding extends_by_def by (rule exI[of _ "[]"], rule exI[of _ "seq_transactions s"]) simp

lemma extends_by_trans:
  assumes "extends_by u S s s'" "extends_by u S' s' s''"
  shows "extends_by u (S \<union> S') s s''"
proof -
  from assms(1) obtain new n where 1: "s' = s\<lparr>transactions := transactions s @ new, seq_transactions := n\<rparr>"
    and n1: "\<forall>t \<in> set new. t_user t = u \<and> t_schedule t \<in> Some ` S"
    unfolding extends_by_def by blast
  from assms(2) obtain new' n' where 2: "s'' = s'\<lparr>transactions := transactions s' @ new', seq_transactions := n'\<rparr>"
    and n2: "\<forall>t \<in> set new'. t_user t = u \<and> t_schedule t \<in> Some ` S'"
    unfolding extends_by_def by blast
  have "s'' = s\<lparr>transactions := transactions s @ (new @ new'), seq_transactions := n'\<rparr>"
    unfolding 2 1 by simp
  moreover have "\<forall>t \<in> set (new @ new'). t_user t = u \<and> t_schedule t \<in> Some ` (S \<union> S')"
    using n1 n2 by auto
  ultimately show ?thesis unfolding extends_by_def by blast
qed

lemma extends_by_write:
  "write_occurrence u sch c s = Inr s' \<Longrightarrow> extends_by u {schedule_id sch} s s'"
proof (cases "s_start_date sch \<le> c")
  case False
  assume "write_occurrence u sch c s = Inr s'"
  then have "s' = s" using False by (simp add: write_occurrence_cases)
  then show ?thesis by (simp add: extends_by_refl)
next
  case True
  assume "write_occurrence u sch c s = Inr s'"
  then have "s' = s\<lparr>transactions := transactions s @ [occurrence_row s u sch c],
                     seq_transactions := Suc (seq_transactions s)\<rparr>"
    using True by (simp add: write_occurrence_cases split: if_splits)
  moreover have "\<forall>t \<in> set [occurrence_row s u sch c]. t_user t = u \<and> t_schedule t \<in> Some ` {schedule_id sch}"
    by (simp add: occurrence_row_def)
  ultimately show ?thesis unfolding extends_by_def by blast
qed

lemma extends_by_tables:
  assumes "extends_by u S s s'"
  shows "users s' = users s" "user_settings s' = user_settings s" "categories s' = categories s"
    "scheduled_transactions s' = scheduled_transactions s"
    "length (transactions s) \<le> length (transactions s')"
  using assms unfolding extends_by_def by auto

lemma extends_by_writable: "extends_by u S s s' \<Longrightarrow> writable s' u' sch = writable s u' sch"
  by (simp add: writable_def extends_by_tables)

lemma extends_by_resume:
  assumes "extends_by u S s s'" "schedule_id sch \<notin> S"
  shows "resume_date s' u sch = resume_date s u sch"
proof -
  from assms(1) obtain new n where 1: "s' = s\<lparr>transactions := transactions s @ new, seq_transactions := n\<rparr>"
    and n1: "\<forall>t \<in> set new. t_user t = u \<and> t_schedule t \<in> Some ` S"
    unfolding extends_by_def by blast
  have "filter (\<lambda>t. t_user t = u \<and> t_schedule t = Some (schedule_id sch)) new = []"
    using n1 assms(2) by (auto simp: filter_empty_conv)
  then show ?thesis unfolding 1 by (simp add: resume_date_def get_last_generated_date_def)
qed

text \<open>A run of the loop only appends rows of the rule; a run that leaves the store as it
  found it would have done the same from any store with the same parent tables.\<close>

lemma generate_frame:
  assumes "generate u sch le c s = Some r"
  shows "extends_by u {schedule_id sch} s (final_store r)
         \<and> (final_store r = s \<longrightarrow>
              (\<forall>s2. writable s2 u sch = writable s u sch
                 \<longrightarrow> generate u sch le c s2 = Some (with_store r s2)))"
  using assms
proof (induction rule: generate.raw_induct[rotated 1, consumes 1])
  case (1 gen u sch le c s r)
  note body = 1(2)
  show ?case
  proof (cases "c \<le> le")
    case False
    then have r: "r = Returned s" using body by simp
    show ?thesis unfolding r using False by (simp add: extends_by_refl generate.simps)
  next
    case True
    show ?thesis
    proof (cases "write_occurrence u sch c s")
      case (Inl e)
      then have r: "r = Raised e s" using body True by simp
      have "write_occurrence u sch c s2 = Inl e" if "writable s2 u sch = writable s u sch" for s2
        using Inl that by (auto simp: write_occurrence_cases split: if_splits)
      then show ?thesis unfolding r using True
        by (simp add: extends_by_refl generate.simps[of u sch le c])
    next
      case (Inr s')
      note w = Inr
      have ext: "extends_by u {schedule_id sch} s s'" using w by (rule extends_by_write)
      have grow: "s_start_date sch \<le> c \<Longrightarrow> length (transactions s') = Suc (length (transactions s))"
        using w by (auto simp: write_occurrence_cases split: if_splits)
      have same: "s' = s \<Longrightarrow> \<not> s_start_date sch \<le> c"
      proof
        assume eq: "s' = s" and "s_start_date sch \<le> c"
        from this(2) have "length (transactions s') = Suc (length (transactions s))" by (rule grow)
        then show False unfolding eq by simp
      qed
      show ?thesis
      proof (cases "step_date (frequency sch) c")
        case (Inl e)
        then have r: "r = Raised e s'" using body True w by simp
        have "generate u sch le c s2 = Some (Raised e s2)" if "s' = s" for s2
          using same[OF that] True Inl by (simp add: generate.simps[of u sch le c] write_occurrence_cases)
        then show ?thesis unfolding r using ext by simp
      next
        case (Inr c')
        then have rec: "gen u sch le c' s' = Some r" using body True w by simp
        from 1(1)[OF rec]
        have e2: "extends_by u {schedule_id sch} s' (final_store r)"
          and f2: "final_store r = s' \<longrightarrow>
              (\<forall>s2. writable s2 u sch = writable s' u sch
                 \<longrightarrow> generate u sch le c' s2 = Some (with_store r s2))"
          by blast+
        have e: "extends_by u {schedule_id sch} s (final_store r)"
          using extends_by_trans[OF ext e2] by simp
        have "generate u sch le c s2 = Some (with_store r s2)"
          if fs: "final_store r = s" and ws: "writable s2 u sch = writable s u sch" for s2
        proof -
          have "length (transactions s') \<le> length (transactions s)"
            using extends_by_tables(5)[OF e2] fs by simp
          moreover have "length (transactions s) \<le> length (transactions s')"
            using extends_by_tables(5)[OF ext] .
          ultimately have len: "length (transactions s') = length (transactions s)" by simp
          have "s' = s"
          proof (cases "s_start_date sch \<le> c")
            case False
            then show ?thesis using w by (simp add: write_occurrence_cases)
          next
            case True
            then have "transactions s' = transactions s @ [occurrence_row s u sch c]"
              using w by (auto simp: write_occurrence_cases split: if_splits)
            then have "length (transactions s') = Suc (length (transactions s))" by simp
            then show ?thesis using len by simp
          qed
          then have "generate u sch le c' s2 = Some (with_store r s2)"
            using f2 fs ws by simp
          moreover have "generate u sch le c s2 = generate u sch le c' s2"
            using same[OF \<open>s' = s\<close>] True Inr
            by (simp add: generate.simps[of u sch le c] write_occurrence_cases)
          ultimately show ?thesis by simp
        qed
        then show ?thesis using e by blast
      qed
    qed
  qed
qed

lemma expand_schedule_extends:
  assumes "expand_schedule u h s sch = Some r"
  shows "extends_by u {schedule_id sch} s (final_store r)"
proof (cases "step_date (frequency sch) (resume_date s u sch)")
  case (Inl e)
  then show ?thesis using assms by (auto simp: expand_schedule_alt extends_by_refl)
next
  case (Inr c)
  then show ?thesis using assms generate_frame by (simp add: expand_schedule_alt)
qed

lemma expand_schedule_frame:
  assumes "expand_schedule u h s sch = Some r" "final_store r = s"
      and "writable s2 u sch = writable s u sch" "resume_date s2 u sch = resume_date s u sch"
  shows "expand_schedule u h s2 sch = Some (with_store r s2)"
proof (cases "step_date (frequency sch) (resume_date s u sch)")
  case (Inl e)
  then show ?thesis using assms by (auto simp: expand_schedule_alt)
next
  case (Inr c)
  then have "generate u sch (loop_end_date h sch) c s = Some r"
    using assms(1) by (simp add: expand_schedule_alt)
  from generate_frame[OF this] assms(2,3)
  have "generate u sch (loop_end_date h sch) c s2 = Some (with_store r s2)" by blast
  then show ?thesis using Inr assms(4) by (simp add: expand_schedule_alt)
qed

lemma run_schedules_extends:
  "run_schedules u h rules s = Some r \<Longrightarrow> extends_by u (schedule_id ` set rules) s (final_store r)"
proof (induction rules arbitrary: s)
  case Nil
  then show ?case by (auto simp: extends_by_refl)
next
  case (Cons sch rest)
  from Cons(2) obtain o1 where o1: "expand_schedule u h s sch = Some o1"
    by (cases "expand_schedule u h s sch") auto
  have e1: "extends_by u {schedule_id sch} s (final_store o1)"
    using o1 by (rule expand_schedule_extends)
  show ?case
  proof (cases o1)
    case (Raised e s1)
    then have "r = Raised e s1" using Cons(2) o1 by simp
    then show ?thesis using e1 Raised extends_by_trans[OF e1 extends_by_refl[of u "schedule_id ` set rest"]]
      by simp
  next
    case (Returned s1)
    then have "run_schedules u h rest s1 = Some r" using Cons(2) o1 by simp
    then have "extends_by u (schedule_id ` set rest) s1 (final_store r)" by (rule Cons(1))
    then show ?thesis using extends_by_trans[OF e1] Returned by simp
  qed
qed

lemma run_schedules_idem:
  assumes "distinct (map schedule_id rules)" "run_schedules u h rules s = Some r"
  shows "run_schedules u h rules (final_store r) = Some r"
  using assms
proof (induction rules arbitrary: s)
  case Nil
  then show ?case by auto
next
  case (Cons sch rest)
  from Cons(3) obtain o1 where o1: "expand_schedule u h s sch = Some o1"
    by (cases "expand_schedule u h s sch") auto
  have idem: "expand_schedule u h (final_store o1) sch = Some o1"
    using o1 by (rule expand_schedule_idem)
  show ?case
  proof (cases o1)
    case (Raised e s1)
    then have "r = Raised e s1" using Cons(3) o1 by simp
    then show ?thesis using idem Raised by simp
  next
    case (Returned s1)
    then have rest: "run_schedules u h rest s1 = Some r" using Cons(3) o1 by simp
    have ih: "run_schedules u h rest (final_store r) = Some r"
      using Cons(1)[OF _ rest] Cons(2) by simp
    have ext: "extends_by u (schedule_id ` set rest) s1 (final_store r)"
      using rest by (rule run_schedules_extends)
    have "schedule_id sch \<notin> schedule_id ` set rest" using Cons(2) by auto
    then have res: "resume_date (final_store r) u sch = resume_date s1 u sch"
      using ext by (rule extends_by_resume[rotated])
    have wr: "writable (final_store r) u sch = writable s1 u sch"
      using ext by (rule extends_by_writable)
    have idem1: "expand_schedule u h s1 sch = Some o1" using idem Returned by simp
    have "expand_schedule u h (final_store r) sch = Some (with_store o1 (final_store r))"
      using idem1 _ wr res
    proof (rule expand_schedule_frame)
      show "final_store o1 = s1" using Returned by simp
    qed
    then show ?thesis using ih Returned by simp
  qed
qed

lemmas projection_eval =
  run_projection_def get_scheduled_transactions_def join_category_def expand_schedule_def
  get_last_generated_date_def step_date_def loop_end_date_def write_occurrence_def
  add_transaction_def fk_parent_ok_def generate.simps add_days.simps
  days_in_month_def is_leap_def Let_def

lemmas example_defs =
  store_rules_def rent_rule_def gym_rule_def rent_occurrence_def store_rent_expanded_def

lemma rent_expanded_run:
  "run_projection (store_rules [rent_rule ''monthly'' (2024, 1, 1)]) ''alice'' (2024, 4, 1)
     = Some (Returned store_rent_expanded)"
  by (simp add: projection_eval example_defs)

lemma day_rank_bound: "valid_date dt \<Longrightarrow> day_rank dt \<le> 3720031"
proof -
  obtain y m d where dt: "dt = (y, m, d)" by (cases dt) auto
  assume "valid_date dt"
  then show ?thesis using dim_bounds(2)[of y m] unfolding dt day_rank_def by simp
qed

lemma next_day_rank: "valid_date dt \<Longrightarrow> day_rank dt < day_rank (next_day dt)"
proof -
  obtain y m d where dt: "dt = (y, m, d)" by (cases dt) auto
  assume "valid_date dt"
  then show ?thesis using dim_bounds(2)[of y m] unfolding dt day_rank_def by auto
qed

lemma add_days_progress:
  "valid_date dt \<Longrightarrow> 0 < n \<Longrightarrow> add_days n dt = Inr dt'
     \<Longrightarrow> valid_date dt' \<and> day_rank dt < day_rank dt'"
proof (induction n dt rule: add_days.induct)
  case (1 n dt)
  from 1(3,4) have v: "valid_date (next_day dt)" and rec: "add_days (n - 1) (next_day dt) = Inr dt'"
    by (auto simp: add_days.simps[of n dt] split: if_splits)
  show ?case
  proof (cases "n - 1 = 0")
    case True
    then have "dt' = next_day dt" using rec by (simp add: add_days.simps[of 0])
    then show ?thesis using v next_day_rank[OF 1(2)] by simp
  next
    case False
    then have "valid_date dt' \<and> day_rank (next_day dt) < day_rank dt'"
      using 1(1)[OF _ v v _ rec] 1(3) by simp
    then show ?thesis using next_day_rank[OF 1(2)] by simp
  qed
qed

lemma add_months_progress:
  assumes "valid_date dt" "k = 1 \<or> k = 2" "add_months k dt = Inr dt'"
  shows "valid_date dt' \<and> day_rank dt < day_rank dt'"
proof -
  obtain y m d where dt: "dt = (y, m, d)" by (cases dt) auto
  have v: "1 \<le> y" "y \<le> 9999" "1 \<le> m" "m \<le> 12" "1 \<le> d" "d \<le> 31"
    using assms(1) dim_bounds(2)[of y m] unfolding dt by simp_all
  show ?thesis
  proof (cases "12 < m + k")
    case False
    define d' where "d' = min (days_in_month y (m + k)) d"
    have dt': "dt' = (y, m + k, d')"
      using assms(3) False v(2) unfolding dt d'_def by (simp add: Let_def)
    have "28 \<le> days_in_month y (m + k)" by (rule dim_bounds)
    then have d': "1 \<le> d'" "d' \<le> days_in_month y (m + k)" "d \<le> d' + 3"
      using v(5,6) unfolding d'_def by simp_all
    show ?thesis
      unfolding dt dt' day_rank_def using v d' assms(2) False by auto
  next
    case True
    define d' where "d' = min (days_in_month (y + 1) (m + k - 12)) d"
    have y: "y + 1 \<le> 9999"
      using assms(3) True unfolding dt by (simp add: Let_def split: if_splits)
    have dt': "dt' = (y + 1, m + k - 12, d')"
      using assms(3) True y unfolding dt d'_def by (simp add: Let_def)
    have "28 \<le> days_in_month (y + 1) (m + k - 12)" by (rule dim_bounds)
    then have d': "1 \<le> d'" "d' \<le> days_in_month (y + 1) (m + k - 12)" "d \<le> d' + 3"
      using v(5,6) unfolding d'_def by simp_all
    show ?thesis
      unfolding dt dt' day_rank_def using v d' assms(2) True y by auto
  qed
qed

lemma step_date_known:
  "step_date ''daily'' c = add_days 1 c"
  "step_date ''weekly'' c = add_days 7 c"
  "step_date ''bi-weekly'' c = add_days 14 c"
  "step_date ''monthly'' c = add_months 1 c"
  "step_date ''bi-monthly'' c = add_months 2 c"
  by (simp_all add: step_date_def)

lemma step_date_progress:
  assumes "known_frequency f" "valid_date c" "step_date f c = Inr c'"
  shows "valid_date c' \<and> day_rank c < day_rank c'"
proof -
  have "f = ''daily'' \<or> f = ''weekly'' \<or> f = ''bi-weekly'' \<or> f = ''monthly''
        \<or> f = ''bi-monthly''"
    using assms(1) unfolding known_frequency_def by (simp only: set_simps insert_iff empty_iff simp_thms)
  then consider (d) "add_days 1 c = Inr c'" | (w) "add_days 7 c = Inr c'"
    | (b) "add_days 14 c = Inr c'" | (m) "add_months 1 c = Inr c'" | (bm) "add_months 2 c = Inr c'"
    using assms(3) step_date_known[of c] by metis
  then show ?thesis
  proof cases
    case d
    then show ?thesis by (rule add_days_progress[OF assms(2), rotated]) simp
  next
    case w
    then show ?thesis by (rule add_days_progress[OF assms(2), rotated]) simp
  next
    case b
    then show ?thesis by (rule add_days_progress[OF assms(2), rotated]) simp
  next
    case m
    then show ?thesis by (rule add_months_progress[OF assms(2), rotated]) simp
  next
    case bm
    then show ?thesis by (rule add_months_progress[OF assms(2), rotated]) simp
  qed
qed

text \<open>With one of the five frequencies and a cursor that is a calendar date the loop
  always comes back: each pass moves the cursor to a later date, and dates end at
  9999-12-31.\<close>

lemma generate_terminates:
  assumes "known_frequency (frequency sch)" "valid_date c"
  shows "\<exists>r. generate u sch le c s = Some r"
  using assms(2)
proof (induction "3720031 - day_rank c" arbitrary: c s rule: less_induct)
  case less
  show ?case
  proof (cases "c \<le> le")
    case False
    then show ?thesis by (simp add: generate.simps)
  next
    case True
    show ?thesis
    proof (cases "write_occurrence u sch c s")
      case (Inl e)
      then show ?thesis using True by (simp add: generate.simps[of u sch le c])
    next
      case w: (Inr s')
      show ?thesis
      proof (cases "step_date (frequency sch) c")
        case (Inl e)
        then show ?thesis using True w by (simp add: generate.simps[of u sch le c])
      next
        case (Inr c')
        from step_date_progress[OF assms(1) less(2) Inr]
        have v: "valid_date c'" and lt: "day_rank c < day_rank c'" by simp_all
        have "3720031 - day_rank c' < 3720031 - day_rank c"
          using lt day_rank_bound[OF v] by simp
        from less(1)[OF this v] obtain r where "generate u sch le c' s' = Some r" by blast
        then show ?thesis using True w Inr by (simp add: generate.simps[of u sch le c])
      qed
    qed
  qed
qed

lemma expand_schedule_terminates:
  assumes "known_frequency (frequency sch)" "valid_date (resume_date s u sch)"
  shows "\<exists>r. expand_schedule u h s sch = Some r"
proof (cases "step_date (frequency sch) (resume_date s u sch)")
  case (Inl e)
  then show ?thesis by (simp add: expand_schedule_alt)
next
  case (Inr c)
  from step_date_progress[OF assms Inr] have "valid_date c" by simp
  from generate_terminates[OF assms(1) this, of u "loop_end_date h sch" s]
  show ?thesis using Inr by (simp add: expand_schedule_alt)
qed

lemma run_schedules_terminates:
  assumes "distinct (map schedule_id rules)"
      and "\<forall>sch \<in> set rules. known_frequency (frequency sch) \<and> valid_date (resume_date s u sch)"
  shows "\<exists>r. run_schedules u h rules s = Some r"
  using assms
proof (induction rules arbitrary: s)
  case Nil
  then show ?case by simp
next
  case (Cons sch rest)
  from Cons(3) obtain o1 where o1: "expand_schedule u h s sch = Some o1"
    using expand_schedule_terminates[of sch s u h] by auto
  show ?case
  proof (cases o1)
    case (Raised e s1)
    then show ?thesis using o1 by simp
  next
    case (Returned s1)
    then have ext: "extends_by u {schedule_id sch} s s1"
      using expand_schedule_extends[OF o1] by simp
    have "\<forall>x \<in> set rest. known_frequency (frequency x) \<and> valid_date (resume_date s1 u x)"
    proof
      fix x assume x: "x \<in> set rest"
      then have "schedule_id x \<in> schedule_id ` set rest" by (rule imageI)
      moreover have "schedule_id sch \<notin> schedule_id ` set rest" using Cons(2) by simp
      ultimately have "schedule_id x \<notin> {schedule_id sch}" by auto
      then have "resume_date s1 u x = resume_date s u x"
        using ext by (rule extends_by_resume[rotated])
      then show "known_frequency (frequency x) \<and> valid_date (resume_date s1 u x)"
        using Cons(3) x by simp
    qed
    moreover have "distinct (map schedule_id rest)" using Cons(2) by simp
    ultimately obtain r where "run_schedules u h rest s1 = Some r"
      using Cons(1) by blast
    then show ?thesis using o1 Returned by simp
  qed
qed

text \<open>The whole run comes back when every rule of the user has one of the five
  frequencies and resumes from a calendar date.\<close>

lemma run_projection_terminates:
  assumes "distinct (map schedule_id (scheduled_transactions s))"
      and "\<forall>sch \<in> set (scheduled_transactions s). s_user sch = u
             \<longrightarrow> known_frequency (frequency sch) \<and> valid_date (resume_date s u sch)"
  shows "\<exists>r. run_projection s u h = Some r"
proof -
  let ?rules = "filter (\<lambda>r. s_user r = u) (scheduled_transactions s)"
  have "map fst (get_scheduled_transactions s u) = ?rules"
    by (simp add: get_scheduled_transactions_def comp_def)
  moreover have "distinct (map schedule_id ?rules)" using assms(1) by (rule distinct_map_filter)
  moreover have "\<forall>sch \<in> set ?rules. known_frequency (frequency sch) \<and> valid_date (resume_date s u sch)"
    using assms(2) by simp
  ultimately show ?thesis
    using run_schedules_terminates[of ?rules s u h] by (simp add: run_projection_def)
qed

section \<open>Claims about the expander\<close>

text \<open>
  Claim C2 expects four occurrences, the first on the start date 2024-01-01, and a balance
  of 900 from that day on. The run leaves three, dated 2024-02-01, 2024-03-01 and
  2024-04-01: with nothing stored for the rule the cursor starts at the start date and is
  advanced one month before the loop writes, so no occurrence is written for 2024-01-01.
  The rows of 2024-01-01 and 2024-01-02 then carry no movement, and their balance is the
  starting balance 1000 with 0 added to it.
\<close>

theorem end_to_end_scenario_skips_start_date:
  "run_projection (store_rules [rent_rule ''monthly'' (2024, 1, 1)]) ''alice'' (2024, 4, 1)
     = Some (Returned store_rent_expanded)
   \<and> map (\<lambda>t. (t_date t, t_amount t)) (transactions store_rent_expanded)
       = [((2024, 2, 1), - 100), ((2024, 3, 1), - 100), ((2024, 4, 1), - 100)]
   \<and> get_calendar_data ar store_rent_expanded ''alice'' (2024, 1, 1) (2024, 1, 2)
       = [\<lparr>cal_date = (2024, 1, 1), credits = 0, debits = 0, is_actual = False,
            net_change = Some 0, balance = f_add ar 1000 0\<rparr>,
          \<lparr>cal_date = (2024, 1, 2), credits = 0, debits = 0, is_actual = False,
            net_change = Some 0, balance = f_add ar 1000 (f_add ar 0 0)\<rparr>]"
proof -
  let ?st = "\<lparr>st_user = ''alice'', st_start_balance = 1000, st_start_date = (2024, 1, 1)\<rparr>"
  let ?df = "[rent_occurrence 1 (2024, 2, 1), rent_occurrence 2 (2024, 3, 1),
              rent_occurrence 3 (2024, 4, 1)]"
  have st: "get_user_settings store_rent_expanded ''alice'' = Some ?st"
    by (simp add: get_user_settings_def example_defs)
  have df: "map fst (get_all_transactions_after store_rent_expanded ''alice'' (st_start_date ?st))
              = ?df"
    by (simp add: get_all_transactions_after_def example_defs)
  then have ne: "get_all_transactions_after store_rent_expanded ''alice'' (st_start_date ?st) \<noteq> []"
    by auto
  have sel: "st_start_date ?st = (2024, 1, 1)" "st_start_balance ?st = 1000"
    by simp_all
  have bins: "bins ?df = date_range (2024, 2, 1) (2024, 4, 1)"
    by (simp add: bins_def example_defs)
  have out: "d < (2024, 2, 1) \<Longrightarrow> merge_day (daily_summary ar ?df) d
               = \<lparr>cal_date = d, credits = 0, debits = 0, is_actual = False,
                  net_change = Some 0, balance = 0\<rparr>" for d :: date
  proof -
    assume "d < (2024, 2, 1)"
    then have "d \<notin> set (bins ?df)" unfolding bins using date_range_valid[of d] by fastforce
    then show ?thesis by (simp add: merge_day_def daily_summary_bins find_summary)
  qed
  have grid: "date_range (2024, 1, 1) (2024, 1, 2) = [(2024, 1, 1), (2024, 1, 2)]"
    by (simp add: date_range.simps days_in_month_def)
  have o: "((2024, 1, 1) :: date) < (2024, 2, 1)" "((2024, 1, 2) :: date) < (2024, 2, 1)"
    by simp_all
  have "get_calendar_data ar store_rent_expanded ''alice'' (2024, 1, 1) (2024, 1, 2)
       = [\<lparr>cal_date = (2024, 1, 1), credits = 0, debits = 0, is_actual = False,
            net_change = Some 0, balance = f_add ar 1000 0\<rparr>,
          \<lparr>cal_date = (2024, 1, 2), credits = 0, debits = 0, is_actual = False,
            net_change = Some 0, balance = f_add ar 1000 (f_add ar 0 0)\<rparr>]"
    unfolding calendar_grid[OF st ne] df
    unfolding sel grid list.map out[OF o(1)] out[OF o(2)]
    by (simp add: running_balance_def cumsum_def)
  moreover have "map (\<lambda>t. (t_date t, t_amount t)) (transactions store_rent_expanded)
       = [((2024, 2, 1), - 100), ((2024, 3, 1), - 100), ((2024, 4, 1), - 100)]"
    by (simp add: example_defs)
  ultimately show ?thesis using rent_expanded_run by blast
qed

text \<open>
  Claim C3. Where the schedule ids are distinct (the table's primary key), a run of
  \<^verbatim>\<open>run_projection\<close> that comes back, normally or with an exception, leaves a store on
  which the same call comes back the same way and writes nothing: the resume point read
  from the stored occurrences already covers the horizon.
\<close>

theorem run_projection_idempotent:
  assumes "distinct (map schedule_id (scheduled_transactions s))"
      and "run_projection s u horizon = Some r"
  shows "run_projection (final_store r) u horizon = Some r"
proof -
  let ?rules = "filter (\<lambda>r. s_user r = u) (scheduled_transactions s)"
  have rules: "map fst (get_scheduled_transactions s' u) = filter (\<lambda>r. s_user r = u) (scheduled_transactions s')" for s'
    by (simp add: get_scheduled_transactions_def comp_def)
  have run: "run_schedules u horizon ?rules s = Some r"
    using assms(2) by (simp add: run_projection_def rules)
  have "distinct (map schedule_id ?rules)" using assms(1) by (rule distinct_map_filter)
  then have "run_schedules u horizon ?rules (final_store r) = Some r" using run by (rule run_schedules_idem)
  moreover have "scheduled_transactions (final_store r) = scheduled_transactions s"
    using run_schedules_extends[OF run] by (rule extends_by_tables)
  ultimately show ?thesis by (simp add: run_projection_def rules)
qed

theorem run_projection_idempotent_witness:
  "run_projection (store_rules [rent_rule ''monthly'' (2024, 1, 1)]) ''alice'' (2024, 4, 1)
     = Some (Returned store_rent_expanded)
   \<and> run_projection store_rent_expanded ''alice'' (2024, 4, 1) = Some (Returned store_rent_expanded)"
proof -
  have h1: "distinct (map schedule_id
              (scheduled_transactions (store_rules [rent_rule ''monthly'' (2024, 1, 1)])))"
    by (simp add: example_defs)
  have h2: "run_projection (store_rules [rent_rule ''monthly'' (2024, 1, 1)]) ''alice'' (2024, 4, 1)
     = Some (Returned store_rent_expanded)"
    by (simp add: projection_eval example_defs)
  show ?thesis using h2 run_projection_idempotent [OF h1 h2] by simp
qed

text \<open>
  Claim C4 says that the generation loop ends for every frequency string. The code does
  not: with one of the five frequencies the loop comes back (the lemmas
  \<open>generate_terminates\<close> and \<open>run_projection_terminates\<close> above). A rule whose
  frequency is none of the five leaves the cursor where it is; with the cursor at or
  before the ceiling the loop never ends. Here the rule has frequency \<^verbatim>\<open>yearly\<close>,
  start date 2024-01-01 and the horizon is 2024-04-01.
\<close>

theorem unknown_frequency_never_returns:
  "step_date ''yearly'' (2024, 1, 1) = Inr (2024, 1, 1)
   \<and> run_projection (store_rules [rent_rule ''yearly'' (2024, 1, 1)]) ''alice'' (2024, 4, 1) = None"
proof -
  let ?sch = "rent_rule ''yearly'' (2024, 1, 1)"
  let ?s = "store_rules [?sch]"
  have stuck: "step_date (frequency ?sch) (2024, 1, 1) = Inr (2024, 1, 1)
               \<and> (2024, 1, 1) \<le> ((2024, 4, 1) :: date) \<and> writable ?s ''alice'' ?sch"
    by (simp add: step_date_def writable_def fk_parent_ok_def example_defs)
  then have "generate ''alice'' ?sch (2024, 4, 1) (2024, 1, 1) ?s \<noteq> Some r" for r
    using generate_stuck by blast
  then have "generate ''alice'' ?sch (2024, 4, 1) (2024, 1, 1) ?s = None" by auto
  moreover have "run_projection ?s ''alice'' (2024, 4, 1)
                   = generate ''alice'' ?sch (2024, 4, 1) (2024, 1, 1) ?s"
    by (simp add: run_projection_def get_scheduled_transactions_def join_category_def
          expand_schedule_def get_last_generated_date_def step_date_def loop_end_date_def
          example_defs split: option.splits outcome.splits)
  ultimately show ?thesis by (simp add: step_date_def)
qed

text \<open>
  Claim C5 says that a rule with an unknown frequency is rejected before any write and
  that the other rules are still expanded. The code does neither: the loop body writes an
  occurrence for it on 2024-01-01 and leaves the cursor unchanged, and the run never
  returns, so the monthly rule that follows it is never expanded.
\<close>

theorem unknown_frequency_not_rejected:
  "write_occurrence ''alice'' (rent_rule ''yearly'' (2024, 1, 1)) (2024, 1, 1)
       (store_rules [rent_rule ''yearly'' (2024, 1, 1), gym_rule])
     = Inr ((store_rules [rent_rule ''yearly'' (2024, 1, 1), gym_rule])
              \<lparr>transactions := [rent_occurrence 1 (2024, 1, 1)], seq_transactions := 1\<rparr>)
   \<and> step_date (frequency (rent_rule ''yearly'' (2024, 1, 1))) (2024, 1, 1) = Inr (2024, 1, 1)
   \<and> run_projection (store_rules [rent_rule ''yearly'' (2024, 1, 1), gym_rule]) ''alice''
        (2024, 4, 1) = None"
proof -
  let ?sch = "rent_rule ''yearly'' (2024, 1, 1)"
  let ?s = "store_rules [?sch, gym_rule]"
  have stuck: "step_date (frequency ?sch) (2024, 1, 1) = Inr (2024, 1, 1)
               \<and> (2024, 1, 1) \<le> ((2024, 4, 1) :: date) \<and> writable ?s ''alice'' ?sch"
    by (simp add: step_date_def writable_def fk_parent_ok_def example_defs)
  then have "generate ''alice'' ?sch (2024, 4, 1) (2024, 1, 1) ?s \<noteq> Some r" for r
    using generate_stuck by blast
  then have g: "generate ''alice'' ?sch (2024, 4, 1) (2024, 1, 1) ?s = None" by auto
  have e: "expand_schedule ''alice'' (2024, 4, 1) ?s ?sch
               = generate ''alice'' ?sch (2024, 4, 1) (2024, 1, 1) ?s"
    by (simp add: expand_schedule_def get_last_generated_date_def step_date_def loop_end_date_def
          example_defs)
  have rules: "map fst (get_scheduled_transactions ?s ''alice'') = [?sch, gym_rule]"
    by (simp add: get_scheduled_transactions_def example_defs)
  have "run_projection ?s ''alice'' (2024, 4, 1) = None"
    by (simp only: run_projection_def rules run_schedules.simps e g option.case)
  moreover have "write_occurrence ''alice'' ?sch (2024, 1, 1) ?s
     = Inr (?s\<lparr>transactions := [rent_occurrence 1 (2024, 1, 1)], seq_transactions := 1\<rparr>)"
    by (simp add: write_occurrence_def add_transaction_def fk_parent_ok_def example_defs)
  ultimately show ?thesis using stuck by blast
qed

text \<open>
  Claim C6, as stated, fails. From the empty store the monthly rule starting 2024-01-31,
  expanded to 2024-04-30, leaves occurrences on 2024-02-29, 2024-03-29 and 2024-04-29:
  none on the start date, and the last one on the 29th, not the 30th.
\<close>

theorem month_clamping_counterexample:
  "generated_dates
     (run_projection (store_rules [rent_rule ''monthly'' (2024, 1, 31)]) ''alice'' (2024, 4, 30))
     = Some [(2024, 2, 29), (2024, 3, 29), (2024, 4, 29)]"
  by (simp add: generated_dates_def projection_eval example_defs)

text \<open>
  Claim C6, amended. For that rule the occurrences generated after the start date are
  exactly 2024-02-29, 2024-03-29 and 2024-04-29: each monthly step adds one calendar month
  to the previous cursor date, clamping its day to the length of the target month, so the
  day clamped in February stays 29. Whether the start date itself gets an occurrence is
  left open.
\<close>

theorem month_clamping:
  "map_option (filter (\<lambda>d. (2024, 1, 31) < d))
     (generated_dates
        (run_projection (store_rules [rent_rule ''monthly'' (2024, 1, 31)]) ''alice'' (2024, 4, 30)))
     = Some [(2024, 2, 29), (2024, 3, 29), (2024, 4, 29)]
   \<and> add_months 1 (2024, 1, 31) = Inr (2024, 2, 29)
   \<and> add_months 1 (2024, 2, 29) = Inr (2024, 3, 29)
   \<and> add_months 1 (2024, 3, 29) = Inr (2024, 4, 29)
   \<and> add_months 1 (2024, 4, 29) = Inr (2024, 5, 29)"
  by (simp add: generated_dates_def projection_eval example_defs)

section \<open>Rows of other users\<close>

lemma filter_map_unchanged:
  "(\<And>x. P (f x) = P x) \<Longrightarrow> (\<And>x. P x \<Longrightarrow> f x = x) \<Longrightarrow> filter P (map f xs) = filter P xs"
  by (induction xs) auto

lemma filter_filter_other:
  "(\<And>x. P x \<Longrightarrow> Q x) \<Longrightarrow> filter P (filter Q xs) = filter P xs"
  by (induction xs) (auto simp del: filter_filter)

lemma add_transaction_frame:
  assumes "v \<noteq> u" "add_transaction s v dt cid descr amount conf sid = Inr (i, s1)"
  shows "user_rows u s1 = user_rows u s"
proof -
  from assms(2) have "s1 = s\<lparr>transactions := transactions s @
        [\<lparr>transaction_id = i, t_user = v, t_schedule = sid, t_category = cid, t_date = dt,
          t_description = descr, t_amount = amount, is_confirmed = conf\<rparr>],
       seq_transactions := i\<rparr>"
    by (auto simp: add_transaction_def Let_def split: if_splits)
  then show ?thesis using assms(1) by (simp add: user_rows_def)
qed

lemma delete_category_frame:
  assumes "v \<noteq> u"
  shows "user_rows u (final_store (delete_category s cid v)) = user_rows u s"
proof -
  define ts where "ts = map (\<lambda>t. if t_category t = Some cid \<and> t_user t = v
                                    then t\<lparr>t_category := None\<rparr> else t) (transactions s)"
  define rs where "rs = map (\<lambda>r. if s_category r = Some cid \<and> s_user r = v
                                    then r\<lparr>s_category := None\<rparr> else r) (scheduled_transactions s)"
  define cs where "cs = filter (\<lambda>c. \<not> (category_id c = cid \<and> c_user c = v)) (categories s)"
  have t: "filter (\<lambda>r. t_user r = u) ts = filter (\<lambda>r. t_user r = u) (transactions s)"
    unfolding ts_def using assms by (intro filter_map_unchanged) auto
  have r: "filter (\<lambda>r. s_user r = u) rs = filter (\<lambda>r. s_user r = u) (scheduled_transactions s)"
    unfolding rs_def using assms by (intro filter_map_unchanged) auto
  have c: "filter (\<lambda>r. c_user r = u) cs = filter (\<lambda>r. c_user r = u) (categories s)"
    unfolding cs_def using assms by (intro filter_filter_other) auto
  have "final_store (delete_category s cid v) = s\<lparr>transactions := ts, scheduled_transactions := rs\<rparr>
        \<or> final_store (delete_category s cid v)
          = s\<lparr>transactions := ts, scheduled_transactions := rs, categories := cs\<rparr>"
    unfolding delete_category_def Let_def ts_def rs_def cs_def by (simp split: if_splits)
  then show ?thesis
  proof
    assume "final_store (delete_category s cid v) = s\<lparr>transactions := ts, scheduled_transactions := rs\<rparr>"
    then show ?thesis by (simp add: user_rows_def t r)
  next
    assume "final_store (delete_category s cid v)
              = s\<lparr>transactions := ts, scheduled_transactions := rs, categories := cs\<rparr>"
    then show ?thesis by (simp add: user_rows_def t r c)
  qed
qed

lemma delete_scheduled_transaction_frame:
  assumes "v \<noteq> u"
  shows "user_rows u (final_store (delete_scheduled_transaction s sid v fut)) = user_rows u s"
proof -
  define rs where "rs = filter (\<lambda>r. \<not> (schedule_id r = sid \<and> s_user r = v)) (scheduled_transactions s)"
  define ts where "ts = filter (\<lambda>t. \<not> (t_schedule t = Some sid \<and> t_user t = v \<and> is_confirmed t = 0))
                          (transactions s)"
  have r: "filter (\<lambda>r. s_user r = u) rs = filter (\<lambda>r. s_user r = u) (scheduled_transactions s)"
    unfolding rs_def using assms by (intro filter_filter_other) auto
  have t: "filter (\<lambda>r. t_user r = u) ts = filter (\<lambda>r. t_user r = u) (transactions s)"
    unfolding ts_def using assms by (intro filter_filter_other) auto
  have "final_store (delete_scheduled_transaction s sid v fut) = s
        \<or> final_store (delete_scheduled_transaction s sid v fut) = s\<lparr>scheduled_transactions := rs\<rparr>
        \<or> final_store (delete_scheduled_transaction s sid v fut)
             = s\<lparr>scheduled_transactions := rs, transactions := ts\<rparr>"
    unfolding delete_scheduled_transaction_def Let_def rs_def ts_def by (simp split: if_splits)
  then show ?thesis
  proof (elim disjE)
    assume "final_store (delete_scheduled_transaction s sid v fut) = s"
    then show ?thesis by simp
  next
    assume "final_store (delete_scheduled_transaction s sid v fut) = s\<lparr>scheduled_transactions := rs\<rparr>"
    then show ?thesis by (simp add: user_rows_def r)
  next
    assume "final_store (delete_scheduled_transaction s sid v fut)
             = s\<lparr>scheduled_transactions := rs, transactions := ts\<rparr>"
    then show ?thesis by (simp add: user_rows_def t r)
  qed
qed

lemma get_all_transactions_after_owner:
  "row \<in> set (get_all_transactions_after s u d) \<Longrightarrow> t_user (fst row) = u \<and> d \<le> t_date (fst row)"
  by (auto simp: get_all_transactions_after_def)

lemma get_scheduled_transactions_owner:
  "row \<in> set (get_scheduled_transactions s u) \<Longrightarrow> s_user (fst row) = u"
  by (auto simp: get_scheduled_transactions_def)

section \<open>The calendar of a user depends on that user's rows only\<close>

lemma find_filter_same: "find P (filter P xs) = find P xs"
  by (induction xs) auto

lemma get_calendar_data_alt:
  "get_calendar_data ar s u view_start view_end =
     (case get_user_settings s u of
        None \<Rightarrow> []
      | Some settings \<Rightarrow>
          let df = map fst (get_all_transactions_after s u (st_start_date settings))
          in if df = []
             then map (\<lambda>d. \<lparr>cal_date = d, credits = 0, debits = 0, is_actual = True,
                             net_change = None, balance = st_start_balance settings\<rparr>)
                    (date_range view_start view_end)
             else filter (\<lambda>r. cal_date r \<ge> view_start \<and> cal_date r \<le> view_end)
                    (running_balance ar (st_start_balance settings)
                       (map (merge_day (daily_summary ar df))
                          (date_range (st_start_date settings) view_end))))"
  by (simp add: get_calendar_data_def Let_def split: option.splits)

lemma user_rows_settings:
  "user_rows u s' = user_rows u s \<Longrightarrow> get_user_settings s' u = get_user_settings s u"
proof -
  assume "user_rows u s' = user_rows u s"
  then have "filter (\<lambda>r. st_user r = u) (user_settings s') = filter (\<lambda>r. st_user r = u) (user_settings s)"
    by (simp add: user_rows_def)
  then have "find (\<lambda>r. st_user r = u) (filter (\<lambda>r. st_user r = u) (user_settings s'))
           = find (\<lambda>r. st_user r = u) (filter (\<lambda>r. st_user r = u) (user_settings s))"
    by simp
  then show ?thesis by (simp only: get_user_settings_def find_filter_same)
qed

lemma user_rows_df:
  assumes "user_rows u s' = user_rows u s"
  shows "map fst (get_all_transactions_after s' u a) = map fst (get_all_transactions_after s u a)"
proof -
  have eq: "filter (\<lambda>r. t_user r = u) (transactions s') = filter (\<lambda>r. t_user r = u) (transactions s)"
    using assms by (simp add: user_rows_def)
  have sp: "filter (\<lambda>t. t_user t = u \<and> a \<le> t_date t) (transactions x)
          = filter (\<lambda>t. a \<le> t_date t) (filter (\<lambda>r. t_user r = u) (transactions x))" for x
    by (simp add: conj_commute)
  show ?thesis unfolding df_of_all sp eq ..
qed

lemma calendar_isolated:
  assumes "user_rows u s' = user_rows u s"
  shows "get_calendar_data ar s' u view_start view_end = get_calendar_data ar s u view_start view_end"
  unfolding get_calendar_data_alt user_rows_settings[OF assms] user_rows_df[OF assms] ..

section \<open>The projection of a user depends on that user's rows only\<close>

lemma rule_dates_occurrences:
  "rule_dates s u sid = map t_date (filter (\<lambda>t. t_schedule t = Some sid) (occurrences_of u s))"
proof -
  have "map t_date (filter (\<lambda>t. t_schedule t = Some sid) (map erase_id xs))
          = map t_date (filter (\<lambda>t. t_schedule t = Some sid) xs)" for xs
    by (induction xs) (auto simp: erase_id_def)
  then show ?thesis
    by (simp add: rule_dates_def occurrences_of_def conj_commute)
qed

lemma resume_date_occurrences:
  assumes "occurrences_of u s' = occurrences_of u s"
  shows "resume_date s' u sch = resume_date s u sch"
proof -
  have "get_last_generated_date x u (schedule_id sch) = max_date (rule_dates x u (schedule_id sch))" for x
    by (simp add: get_last_generated_date_def rule_dates_def)
  then show ?thesis using assms by (simp add: resume_date_def rule_dates_occurrences)
qed

lemma write_occurrence_writable:
  assumes "writable s u sch"
  shows "write_occurrence u sch c s
           = Inr (if s_start_date sch \<le> c
                  then s\<lparr>transactions := transactions s @ [occurrence_row s u sch c],
                         seq_transactions := Suc (seq_transactions s)\<rparr>
                  else s)"
  using assms by (simp add: write_occurrence_cases)

lemma occurrences_after_write:
  assumes "occurrences_of u s' = occurrences_of u s"
      and "write_occurrence u sch c s = Inr s1" "write_occurrence u sch c s' = Inr s1'"
  shows "occurrences_of u s1' = occurrences_of u s1"
proof (cases "s_start_date sch \<le> c")
  case False
  then show ?thesis using assms by (simp add: write_occurrence_cases)
next
  case True
  have e: "erase_id (occurrence_row s' u sch c) = erase_id (occurrence_row s u sch c)"
    by (simp add: erase_id_def occurrence_row_def)
  have "s1 = s\<lparr>transactions := transactions s @ [occurrence_row s u sch c],
                 seq_transactions := Suc (seq_transactions s)\<rparr>"
    using assms(2) True by (simp add: write_occurrence_cases split: if_splits)
  then have 1: "occurrences_of u s1 = occurrences_of u s @ [erase_id (occurrence_row s u sch c)]"
    by (simp add: occurrences_of_def occurrence_row_def)
  have "s1' = s'\<lparr>transactions := transactions s' @ [occurrence_row s' u sch c],
                 seq_transactions := Suc (seq_transactions s')\<rparr>"
    using assms(3) True by (simp add: write_occurrence_cases split: if_splits)
  then have 2: "occurrences_of u s1' = occurrences_of u s' @ [erase_id (occurrence_row s' u sch c)]"
    by (simp add: occurrences_of_def occurrence_row_def)
  show ?thesis unfolding 1 2 e assms(1) ..
qed

text \<open>Two stores with the same occurrences of the user, both able to take the rule's
  rows: the loop does the same in both.\<close>

lemma generate_isolated:
  assumes "generate u sch le c s = Some r"
      and "occurrences_of u s' = occurrences_of u s" "writable s u sch" "writable s' u sch"
  shows "\<exists>r'. generate u sch le c s' = Some r' \<and> same_projection u r r'"
  using assms
proof (induction arbitrary: s' rule: generate.raw_induct[rotated 1, consumes 1])
  case (1 gen u sch le c s r)
  note body = 1(2) and occ = 1(3) and w = 1(4) and w' = 1(5)
  show ?case
  proof (cases "c \<le> le")
    case False
    then have "r = Returned s" using body by simp
    moreover have "generate u sch le c s' = Some (Returned s')"
      using False by (simp add: generate.simps)
    ultimately show ?thesis using occ by (simp add: same_projection_def)
  next
    case True
    obtain s1 where s1: "write_occurrence u sch c s = Inr s1"
      using write_occurrence_writable[OF w] by blast
    obtain s1' where s1': "write_occurrence u sch c s' = Inr s1'"
      using write_occurrence_writable[OF w'] by blast
    have occ1: "occurrences_of u s1' = occurrences_of u s1"
      using occ s1 s1' by (rule occurrences_after_write)
    have w1: "writable s1 u sch" "writable s1' u sch"
      using w w' writable_after_write[OF s1] writable_after_write[OF s1'] by simp_all
    show ?thesis
    proof (cases "step_date (frequency sch) c")
      case (Inl e)
      then have "r = Raised e s1" using body True s1 by simp
      moreover have "generate u sch le c s' = Some (Raised e s1')"
        using True s1' Inl by (simp add: generate.simps[of u sch le c])
      ultimately show ?thesis using occ1 by (simp add: same_projection_def)
    next
      case (Inr c')
      then have "gen u sch le c' s1 = Some r" using body True s1 by simp
      from 1(1)[OF this occ1 w1]
      obtain r' where "generate u sch le c' s1' = Some r'" "same_projection u r r'" by blast
      moreover have "generate u sch le c s' = generate u sch le c' s1'"
        using True s1' Inr by (simp add: generate.simps[of u sch le c])
      ultimately show ?thesis by simp
    qed
  qed
qed

lemma expand_schedule_isolated:
  assumes "expand_schedule u h s sch = Some r"
      and "occurrences_of u s' = occurrences_of u s" "writable s u sch" "writable s' u sch"
  shows "\<exists>r'. expand_schedule u h s' sch = Some r' \<and> same_projection u r r'"
proof (cases "step_date (frequency sch) (resume_date s u sch)")
  case (Inl e)
  then have "r = Raised e s" using assms(1) by (simp add: expand_schedule_alt)
  moreover have "expand_schedule u h s' sch = Some (Raised e s')"
    using Inl resume_date_occurrences[OF assms(2)] by (simp add: expand_schedule_alt)
  ultimately show ?thesis using assms(2) by (simp add: same_projection_def)
next
  case (Inr c)
  then have "generate u sch (loop_end_date h sch) c s = Some r"
    using assms(1) by (simp add: expand_schedule_alt)
  from generate_isolated[OF this assms(2-4)]
  show ?thesis using Inr resume_date_occurrences[OF assms(2)] by (simp add: expand_schedule_alt)
qed

lemma same_projection_exit:
  "same_projection u r r' \<Longrightarrow> (\<exists>a b. r = Returned a \<and> r' = Returned b)
     \<or> (\<exists>e a b. r = Raised e a \<and> r' = Raised e b)"
  by (cases r; cases r') (auto simp: same_projection_def)

lemma run_schedules_isolated:
  assumes "run_schedules u h rules s = Some r"
      and "occurrences_of u s' = occurrences_of u s"
      and "\<forall>sch \<in> set rules. writable s u sch \<and> writable s' u sch"
  shows "\<exists>r'. run_schedules u h rules s' = Some r' \<and> same_projection u r r'"
  using assms
proof (induction rules arbitrary: s s')
  case Nil
  then show ?case by (auto simp: same_projection_def)
next
  case (Cons sch rest)
  from Cons(2) obtain o1 where o1: "expand_schedule u h s sch = Some o1"
    by (cases "expand_schedule u h s sch") auto
  from expand_schedule_isolated[OF o1 Cons(3)] Cons(4)
  obtain o1' where o1': "expand_schedule u h s' sch = Some o1'" and sp: "same_projection u o1 o1'"
    by auto
  from same_projection_exit[OF sp] show ?case
  proof (elim disjE exE conjE)
    fix e a b assume eq: "o1 = Raised e a" "o1' = Raised e b"
    then have "r = o1" using Cons(2) o1 by simp
    moreover have "run_schedules u h (sch # rest) s' = Some o1'" using o1' eq by simp
    ultimately show ?thesis using sp by blast
  next
    fix a b assume eq: "o1 = Returned a" "o1' = Returned b"
    then have rest: "run_schedules u h rest a = Some r" using Cons(2) o1 by simp
    have occ: "occurrences_of u b = occurrences_of u a"
      using sp eq by (simp add: same_projection_def)
    have "extends_by u {schedule_id sch} s a" "extends_by u {schedule_id sch} s' b"
      using expand_schedule_extends[OF o1] expand_schedule_extends[OF o1'] eq by simp_all
    then have w: "\<forall>x \<in> set rest. writable a u x \<and> writable b u x"
      using Cons(4) by (simp add: extends_by_writable)
    from Cons(1)[OF rest occ w]
    obtain r' where "run_schedules u h rest b = Some r'" "same_projection u r r'" by blast
    then show ?thesis using o1' eq by simp
  qed
qed

lemma fk_ok_writable:
  "fk_ok s \<Longrightarrow> sch \<in> set (scheduled_transactions s) \<Longrightarrow> s_user sch = u \<Longrightarrow> writable s u sch"
  by (auto simp: fk_ok_def writable_def fk_parent_ok_def)

lemma same_projection_sym: "same_projection u r r' \<Longrightarrow> same_projection u r' r"
  by (cases r; cases r') (auto simp: same_projection_def)

lemma run_projection_isolated:
  assumes rows: "user_rows u s' = user_rows u s" and fk: "fk_ok s" "fk_ok s'"
  shows "rel_option (same_projection u) (run_projection s u h) (run_projection s' u h)"
proof -
  let ?rules = "filter (\<lambda>r. s_user r = u) (scheduled_transactions s)"
  have rules: "map fst (get_scheduled_transactions x u) = filter (\<lambda>r. s_user r = u) (scheduled_transactions x)" for x
    by (simp add: get_scheduled_transactions_def comp_def)
  have same_rules: "filter (\<lambda>r. s_user r = u) (scheduled_transactions s') = ?rules"
    using rows by (simp add: user_rows_def)
  have occ: "occurrences_of u s' = occurrences_of u s"
    using rows by (simp add: user_rows_def occurrences_of_def)
  have "\<forall>sch \<in> set ?rules. writable s u sch" using fk(1) by (auto intro: fk_ok_writable)
  moreover have "\<forall>sch \<in> set ?rules. writable s' u sch"
    using fk(2) unfolding same_rules[symmetric] by (auto intro: fk_ok_writable)
  ultimately have w: "\<forall>sch \<in> set ?rules. writable s u sch \<and> writable s' u sch"
    "\<forall>sch \<in> set ?rules. writable s' u sch \<and> writable s u sch" by blast+
  have run: "run_projection s u h = run_schedules u h ?rules s"
    "run_projection s' u h = run_schedules u h ?rules s'"
    by (simp_all add: run_projection_def rules same_rules)
  show ?thesis
  proof (cases "run_schedules u h ?rules s")
    case (Some r)
    from run_schedules_isolated[OF Some occ w(1)] show ?thesis unfolding run Some by auto
  next
    case None
    show ?thesis
    proof (cases "run_schedules u h ?rules s'")
      case (Some r')
      from run_schedules_isolated[OF Some occ[symmetric] w(2)] None show ?thesis by auto
    next
      case n: None
      show ?thesis unfolding run None n by simp
    qed
  qed
qed

section \<open>Claims about the store\<close>

text \<open>
  Claim C10 says that an operation invoked with a user id reads and returns rows of that
  user only. \<^verbatim>\<open>add_transaction\<close> accepts any existing category id, and the joins of
  \<^verbatim>\<open>get_all_transactions_after\<close> and \<^verbatim>\<open>get_transactions_for_day\<close> match on the category id
  alone. Bob's transaction references category 1, a row of Alice: both reads, invoked with
  Bob's id, return the name and type of Alice's row, and return something else once Alice's
  row is renamed.
\<close>

theorem category_join_crosses_users:
  "add_transaction
       ((store_shared_category ''Salary'')\<lparr>transactions := [], seq_transactions := 0\<rparr>)
       ''bob'' (2024, 1, 5) (Some 1) ''Pay'' 50 1 None
     = Inr (1, store_shared_category ''Salary'')
   \<and> map c_user (categories (store_shared_category ''Salary'')) = [''alice'']
   \<and> map snd (get_all_transactions_after (store_shared_category ''Salary'') ''bob'' (2024, 1, 1))
       = [Some (''Salary'', ''credit'')]
   \<and> map snd (get_all_transactions_after (store_shared_category ''Bonus'') ''bob'' (2024, 1, 1))
       = [Some (''Bonus'', ''credit'')]
   \<and> map snd (get_transactions_for_day (store_shared_category ''Salary'') ''bob'' (2024, 1, 5))
       = [Some (''Salary'', ''credit'')]
   \<and> map snd (get_transactions_for_day (store_shared_category ''Bonus'') ''bob'' (2024, 1, 5))
       = [Some (''Bonus'', ''credit'')]"
  by (simp add: add_transaction_def fk_parent_ok_def get_all_transactions_after_def
      get_transactions_for_day_def join_category_def store_shared_category_def)

end
